theory Spec2Isabelle
  imports Main "HOL-Library.Word"
begin

section \<open>The response cache of \<open>services/api.js\<close>\<close>

text \<open>
  JavaScript strings are modelled as \<^typ>\<open>string\<close>; a character stands for one code
  unit and \<open>charCodeAt\<close> is \<^const>\<open>of_char\<close>, so the model covers the strings whose
  code units are below 256. \<open>Date.now()\<close> is an integer number of milliseconds that
  the caller of each operation supplies.
\<close>

subsection \<open>The insertion-ordered \<open>Map\<close>\<close>

text \<open>
  A JavaScript \<open>Map\<close> iterates in insertion order, and \<open>set\<close> on a key that is
  already present replaces the value without moving the key. It is modelled as an
  association list, oldest insertion first. An entry is the object
  \<open>{ response, timestamp }\<close>; its first field is named \<open>entry_response\<close> here, apart
  from the \<open>response\<close> field of a call result.
\<close>

record entry =
  entry_response :: string
  timestamp :: int

type_synonym js_map = "(string \<times> entry) list"

definition Map_get :: "js_map \<Rightarrow> string \<Rightarrow> entry option" where
  "Map_get m k = map_of m k"

fun Map_set :: "js_map \<Rightarrow> string \<Rightarrow> entry \<Rightarrow> js_map" where
  "Map_set [] k v = [(k, v)]"
| "Map_set (p # ps) k v = (if fst p = k then (k, v) # ps else p # Map_set ps k v)"

definition Map_delete :: "js_map \<Rightarrow> string \<Rightarrow> js_map" where
  "Map_delete m k = filter (\<lambda>p. fst p \<noteq> k) m"

definition Map_size :: "js_map \<Rightarrow> nat" where
  "Map_size m = length m"

definition Map_keys :: "js_map \<Rightarrow> string list" where
  "Map_keys m = map fst m"

subsection \<open>\<open>ResponseCache\<close>\<close>

record ResponseCache =
  cache :: js_map
  maxSize :: nat
  ttlMs :: int

definition ResponseCache_init :: ResponseCache where
  "ResponseCache_init = \<lparr>cache = [], maxSize = 100, ttlMs = 30 * 60 * 1000\<rparr>"

text \<open>
  \<open>hash = ((hash << 5) - hash) + str.charCodeAt(i); hash |= 0\<close>. The shift yields a
  32-bit integer, the subtraction and the addition are exact on numbers of this size, and
  \<open>|= 0\<close> reduces the sum to 32 bits again: the step is arithmetic modulo \<open>2 ^ 32\<close>, and
  the value read after the loop is the signed one.
\<close>

definition hash_step :: "32 word \<Rightarrow> char \<Rightarrow> 32 word" where
  "hash_step h c = (push_bit 5 h - h) + of_nat (of_char c)"

definition hash_string :: "string \<Rightarrow> 32 word" where
  "hash_string str = foldl hash_step 0 str"

text \<open>\<open>Number.prototype.toString(36)\<close> on an integer.\<close>

definition digit36 :: "int \<Rightarrow> char" where
  "digit36 d = (if d < 10 then char_of (48 + d) else char_of (87 + d))"

function digits36 :: "int \<Rightarrow> string" where
  "digits36 n = (if n < 36 then [digit36 n] else digits36 (n div 36) @ [digit36 (n mod 36)])"
  by pat_completeness auto
termination
  by (relation "measure nat") auto

declare digits36.simps [simp del]

definition toString36 :: "int \<Rightarrow> string" where
  "toString36 i = (if i < 0 then CHR ''-'' # digits36 (- i) else digits36 i)"

definition generateKey :: "string \<Rightarrow> string \<Rightarrow> string \<Rightarrow> string" where
  "generateKey systemPrompt userPrompt model =
     toString36 (sint (hash_string (model @ '':'' @ take 200 systemPrompt @ '':'' @ userPrompt)))"

text \<open>
  \<open>get(key)\<close> at time \<open>now\<close>: the cached text and the cache afterwards. An entry
  older than \<open>ttlMs\<close> is deleted by the lookup.
\<close>

definition ResponseCache_get :: "ResponseCache \<Rightarrow> string \<Rightarrow> int \<Rightarrow> string option \<times> ResponseCache" where
  "ResponseCache_get c key now =
     (case Map_get (cache c) key of
        None \<Rightarrow> (None, c)
      | Some e \<Rightarrow>
          if now - timestamp e > ttlMs c
          then (None, c\<lparr>cache := Map_delete (cache c) key\<rparr>)
          else (Some (entry_response e), c))"

text \<open>
  \<open>set(key, response)\<close> at time \<open>now\<close>. \<open>this.cache.keys().next().value\<close> is the first
  key of the map, or \<open>undefined\<close> when the map is empty; deleting \<open>undefined\<close> removes
  nothing.
\<close>

definition Map_first_key :: "js_map \<Rightarrow> string option" where
  "Map_first_key m = (case m of [] \<Rightarrow> None | (k, _) # _ \<Rightarrow> Some k)"

definition evict_oldest :: "js_map \<Rightarrow> js_map" where
  "evict_oldest m = (case Map_first_key m of None \<Rightarrow> m | Some oldest \<Rightarrow> Map_delete m oldest)"

definition ResponseCache_set :: "ResponseCache \<Rightarrow> string \<Rightarrow> string \<Rightarrow> int \<Rightarrow> ResponseCache" where
  "ResponseCache_set c key r now =
     (let m = (if Map_size (cache c) \<ge> maxSize c then evict_oldest (cache c) else cache c)
      in c\<lparr>cache := Map_set m key \<lparr>entry_response = r, timestamp = now\<rparr>\<rparr>)"

definition ResponseCache_clear :: "ResponseCache \<Rightarrow> ResponseCache" where
  "ResponseCache_clear c = c\<lparr>cache := []\<rparr>"

text \<open>Sequences of cache operations, each with the clock value it reads.\<close>

datatype cache_op = Get string int | Set string string int | Clear

fun apply_cache_op :: "ResponseCache \<Rightarrow> cache_op \<Rightarrow> ResponseCache" where
  "apply_cache_op c (Get key now) = snd (ResponseCache_get c key now)"
| "apply_cache_op c (Set key r now) = ResponseCache_set c key r now"
| "apply_cache_op c Clear = ResponseCache_clear c"

definition run_cache_ops :: "ResponseCache \<Rightarrow> cache_op list \<Rightarrow> ResponseCache" where
  "run_cache_ops c ops = foldl apply_cache_op c ops"

text \<open>What every operation keeps: the bound, and keys that occur once.\<close>

definition cache_inv :: "ResponseCache \<Rightarrow> bool" where
  "cache_inv c \<longleftrightarrow> Map_size (cache c) \<le> maxSize c \<and> distinct (Map_keys (cache c)) \<and> 0 < maxSize c"

text \<open>
  When each entry was inserted. \<open>this.cache.set(key, ...)\<close> inserts an entry when the
  key is absent at that moment, after the eviction, and replaces the value in place
  otherwise. \<open>inserted_at c0 ops k\<close> is the position in \<open>ops\<close> of the last \<open>set\<close> that
  inserted an entry for \<open>k\<close>; no \<open>get\<close> changes it.
\<close>

definition Set_inserts :: "ResponseCache \<Rightarrow> string \<Rightarrow> bool" where
  "Set_inserts c key \<longleftrightarrow>
     Map_get (if Map_size (cache c) \<ge> maxSize c then evict_oldest (cache c) else cache c) key = None"

fun insertion_index ::
  "ResponseCache \<Rightarrow> nat \<Rightarrow> cache_op list \<Rightarrow> (string \<Rightarrow> nat option) \<Rightarrow> (string \<Rightarrow> nat option)" where
  "insertion_index c n [] b = b"
| "insertion_index c n (x # xs) b =
     insertion_index (apply_cache_op c x) (Suc n) xs
       (case x of
          Set key r now \<Rightarrow> if Set_inserts c key then b(key \<mapsto> n) else b
        | _ \<Rightarrow> b)"

definition inserted_at :: "ResponseCache \<Rightarrow> cache_op list \<Rightarrow> string \<Rightarrow> nat option" where
  "inserted_at c0 ops = insertion_index c0 0 ops (\<lambda>k. None)"

text \<open>Both keys were inserted, the first one earlier.\<close>

definition inserted_before :: "(string \<Rightarrow> nat option) \<Rightarrow> string \<Rightarrow> string \<Rightarrow> bool" where
  "inserted_before b x y =
     (case b x of None \<Rightarrow> False | Some i \<Rightarrow> (case b y of None \<Rightarrow> False | Some j \<Rightarrow> i < j))"

definition order_inv :: "ResponseCache \<Rightarrow> (string \<Rightarrow> nat option) \<Rightarrow> nat \<Rightarrow> bool" where
  "order_inv c b n \<longleftrightarrow>
     (\<forall>k \<in> set (Map_keys (cache c)). \<exists>i. b k = Some i \<and> i < n) \<and>
     sorted_wrt (inserted_before b) (Map_keys (cache c))"

section \<open>\<open>ApiService.call\<close>: cache, primary provider, failover\<close>

text \<open>
  A thrown \<open>Error\<close> is modelled by its message. An adapter call
  (\<open>Cerebras.call\<close>, \<open>Gemini.call\<close>) issues exactly one \<open>fetch\<close> and either returns
  the completion text or throws; what the network answers is not decided by the program,
  so the two adapters are functions supplied by the environment, from the arguments the
  router passes to the outcome. The router's network activity is the list of the
  adapters it invoked, in order.
\<close>

datatype js_error = Error (message: string)

datatype provider = Cerebras | Gemini

record adapters =
  Cerebras_call :: "string \<Rightarrow> string \<Rightarrow> string \<Rightarrow> string \<Rightarrow> string \<Rightarrow> js_error + string"
  Gemini_call :: "string \<Rightarrow> string \<Rightarrow> string \<Rightarrow> string \<Rightarrow> js_error + string"

text \<open>
  The \<open>options\<close> object. A field that the caller may leave out is an option, and the
  destructuring at the head of \<open>call\<close> and \<open>stream\<close> puts the defaults in.
\<close>

record api_keys =
  cerebras :: "string option"
  gemini :: "string option"

record call_options =
  systemPrompt :: "string option"
  userPrompt :: string
  apiKeys :: "api_keys option"
  model :: "string option"
  useCache :: "bool option"
  stream :: "bool option"

definition or_default :: "'a option \<Rightarrow> 'a \<Rightarrow> 'a" where
  "or_default x d = (case x of None \<Rightarrow> d | Some v \<Rightarrow> v)"

text \<open>
  Truthiness of an optional string: \<open>undefined\<close> and \<open>''\<close> are falsy.
  \<open>truthy x = Some s\<close> when \<open>x\<close> is the truthy string \<open>s\<close>.
\<close>

definition truthy :: "string option \<Rightarrow> string option" where
  "truthy x = (case x of None \<Rightarrow> None | Some s \<Rightarrow> if s = [] then None else Some s)"

text \<open>
  The object that \<open>call\<close> returns. The property \<open>failover\<close> is written by one
  \<open>return\<close> only, so it is an option: \<open>None\<close> is an object without the property.
  \<open>responseTime\<close>, a difference of two \<open>performance.now()\<close> readings, is left out.
\<close>

record CallResult =
  response :: string
  provider :: string
  cached :: bool
  failover :: "bool option"

text \<open>
  \<open>call(options)\<close> on the cache \<open>c\<close>. \<open>t_get\<close> is the clock that the cache lookup
  reads and \<open>t_set\<close> the clock that the store reads after the provider has answered.
  The result is the returned object or the thrown error, the cache afterwards and the
  adapters invoked.
\<close>

definition store_response :: "bool \<Rightarrow> ResponseCache \<Rightarrow> string \<Rightarrow> string \<Rightarrow> int \<Rightarrow> ResponseCache" where
  "store_response caching c cacheKey r t_set =
     (if caching then ResponseCache_set c cacheKey r t_set else c)"

definition ApiService_call ::
  "adapters \<Rightarrow> ResponseCache \<Rightarrow> int \<Rightarrow> int \<Rightarrow> call_options
     \<Rightarrow> (js_error + CallResult) \<times> ResponseCache \<times> provider list" where
  "ApiService_call net c t_get t_set options =
     (let systemPrompt' = or_default (systemPrompt options) [];
          userPrompt' = userPrompt options;
          apiKeys' = or_default (apiKeys options) \<lparr>cerebras = None, gemini = None\<rparr>;
          model' = or_default (model options) ''llama-3.3-70b'';
          useCache' = or_default (useCache options) True;
          stream' = or_default (stream options) False;
          caching = (useCache' \<and> \<not> stream');
          (cachedv, c1) =
             (if caching
              then ResponseCache_get c (generateKey systemPrompt' userPrompt' model') t_get
              else (None, c))
      in case truthy cachedv of
           Some cachedText \<Rightarrow>
             (Inr \<lparr>response = cachedText, provider = ''cache'', cached = True, failover = None\<rparr>,
              c1, [])
         | None \<Rightarrow>
        (case truthy (cerebras apiKeys') of
           Some cerebrasKey \<Rightarrow>
             (case Cerebras_call net userPrompt' cerebrasKey ''chatbot'' model' systemPrompt' of
                Inr r \<Rightarrow>
                  (Inr \<lparr>response = r, provider = ''cerebras'', cached = False, failover = None\<rparr>,
                   store_response caching c1 (generateKey systemPrompt' userPrompt' model') r t_set,
                   [Cerebras])
              | Inl cerebrasError \<Rightarrow>
                  (case truthy (gemini apiKeys') of
                     Some geminiKey \<Rightarrow>
                       (case Gemini_call net userPrompt' geminiKey ''chatbot'' systemPrompt' of
                          Inr r \<Rightarrow>
                            (Inr \<lparr>response = r, provider = ''gemini'', cached = False,
                                  failover = Some True\<rparr>,
                             store_response caching c1
                               (generateKey systemPrompt' userPrompt' model') r t_set,
                             [Cerebras, Gemini])
                        | Inl geminiError \<Rightarrow>
                            (Inl (Error (''Both APIs failed. Cerebras: '' @ message cerebrasError
                                         @ '', Gemini: '' @ message geminiError)),
                             c1, [Cerebras, Gemini]))
                   | None \<Rightarrow> (Inl cerebrasError, c1, [Cerebras])))
         | None \<Rightarrow>
             (case truthy (gemini apiKeys') of
                Some geminiKey \<Rightarrow>
                  (case Gemini_call net userPrompt' geminiKey ''chatbot'' systemPrompt' of
                     Inr r \<Rightarrow>
                       (Inr \<lparr>response = r, provider = ''gemini'', cached = False, failover = None\<rparr>,
                        store_response caching c1
                          (generateKey systemPrompt' userPrompt' ''gemini'') r t_set,
                        [Gemini])
                   | Inl geminiError \<Rightarrow> (Inl geminiError, c1, [Gemini]))
              | None \<Rightarrow>
                  (Inl (Error ''No API keys configured. Please add an API key in settings.''),
                   c1, []))))"

text \<open>
  Names for parts of a call: the keys after the default, the truthy text that the cache
  check finds (\<open>None\<close> when the check is skipped, misses, or finds the empty text), and
  the two adapter invocations with the arguments the router passes.
\<close>

definition keys_of :: "call_options \<Rightarrow> api_keys" where
  "keys_of options = or_default (apiKeys options) \<lparr>cerebras = None, gemini = None\<rparr>"

definition cache_hit :: "ResponseCache \<Rightarrow> int \<Rightarrow> call_options \<Rightarrow> string option" where
  "cache_hit c t_get options =
     (if or_default (useCache options) True \<and> \<not> or_default (stream options) False
      then truthy (fst (ResponseCache_get c
             (generateKey (or_default (systemPrompt options) []) (userPrompt options)
                (or_default (model options) ''llama-3.3-70b'')) t_get))
      else None)"

definition cerebras_reply :: "adapters \<Rightarrow> call_options \<Rightarrow> string \<Rightarrow> js_error + string" where
  "cerebras_reply net options apiKey =
     Cerebras_call net (userPrompt options) apiKey ''chatbot''
       (or_default (model options) ''llama-3.3-70b'') (or_default (systemPrompt options) [])"

definition gemini_reply :: "adapters \<Rightarrow> call_options \<Rightarrow> string \<Rightarrow> js_error + string" where
  "gemini_reply net options apiKey =
     Gemini_call net (userPrompt options) apiKey ''chatbot'' (or_default (systemPrompt options) [])"

section \<open>\<open>ApiService.stream\<close>: the streaming decoder\<close>

subsection \<open>JavaScript values read from a frame\<close>

text \<open>
  The values that \<open>JSON.parse\<close> yields, and \<open>undefined\<close>, which property access adds.
  A number is carried by the text that \<open>String\<close> gives for it (\<open>''0''\<close> for both zeros).
  The members of an object are in source order; a later duplicate of a key wins.
\<close>

datatype json =
    JUndefined
  | JNull
  | JBool bool
  | JNum string
  | JStr string
  | JArr "json list"
  | JObj "(string \<times> json) list"

definition nullish :: "json \<Rightarrow> bool" where
  "nullish v \<longleftrightarrow> v = JUndefined \<or> v = JNull"

fun truthy_json :: "json \<Rightarrow> bool" where
  "truthy_json JUndefined = False"
| "truthy_json JNull = False"
| "truthy_json (JBool b) = b"
| "truthy_json (JNum n) = (n \<noteq> ''0'' \<and> n \<noteq> ''NaN'')"
| "truthy_json (JStr t) = (t \<noteq> [])"
| "truthy_json (JArr xs) = True"
| "truthy_json (JObj ms) = True"

text \<open>
  \<open>v.name\<close> for a \<open>v\<close> that is neither \<open>null\<close> nor \<open>undefined\<close> and a \<open>name\<close> that no
  prototype defines (\<open>choices\<close>, \<open>delta\<close>, \<open>content\<close>): only an object has it.
  \<open>v[0]\<close> is also the first element of an array and the first character of a string.
\<close>

fun get_member :: "json \<Rightarrow> string \<Rightarrow> json" where
  "get_member (JObj ms) name = (case map_of (rev ms) name of None \<Rightarrow> JUndefined | Some v \<Rightarrow> v)"
| "get_member v name = JUndefined"

fun get_index0 :: "json \<Rightarrow> json" where
  "get_index0 (JObj ms) = (case map_of (rev ms) ''0'' of None \<Rightarrow> JUndefined | Some v \<Rightarrow> v)"
| "get_index0 (JArr xs) = (case xs of [] \<Rightarrow> JUndefined | x # _ \<Rightarrow> x)"
| "get_index0 (JStr t) = (case t of [] \<Rightarrow> JUndefined | ch # _ \<Rightarrow> JStr [ch])"
| "get_index0 v = JUndefined"

text \<open>The optional chain: \<open>v?.name\<close> and \<open>v?.[0]\<close>.\<close>

definition opt_member :: "json \<Rightarrow> string \<Rightarrow> json" where
  "opt_member v name = (if nullish v then JUndefined else get_member v name)"

definition opt_index0 :: "json \<Rightarrow> json" where
  "opt_index0 v = (if nullish v then JUndefined else get_index0 v)"

text \<open>
  \<open>parsed.choices?.[0]?.delta?.content || ''\<close>. The first access is not optional: on
  \<open>null\<close> it throws a \<open>TypeError\<close>, which is \<open>None\<close> here.
\<close>

definition delta_content :: "json \<Rightarrow> json option" where
  "delta_content parsed =
     (if nullish parsed then None
      else let d = opt_member (opt_member (opt_index0 (get_member parsed ''choices'')) ''delta'') ''content''
           in Some (if truthy_json d then d else JStr []))"

text \<open>The string that \<open>fullText += delta\<close> appends.\<close>

fun join_comma :: "string list \<Rightarrow> string" where
  "join_comma [] = []"
| "join_comma [x] = x"
| "join_comma (x # y # ys) = x @ '','' @ join_comma (y # ys)"

fun ToString :: "json \<Rightarrow> string" where
  "ToString JUndefined = ''undefined''"
| "ToString JNull = ''null''"
| "ToString (JBool b) = (if b then ''true'' else ''false'')"
| "ToString (JNum n) = n"
| "ToString (JStr t) = t"
| "ToString (JArr xs) = join_comma (map (\<lambda>x. if nullish x then [] else ToString x) xs)"
| "ToString (JObj ms) = ''[object Object]''"

subsection \<open>String helpers\<close>

definition is_space :: "char \<Rightarrow> bool" where
  "is_space ch \<longleftrightarrow> (of_char ch :: nat) \<in> {9, 10, 11, 12, 13, 32, 160}"

definition trim :: "string \<Rightarrow> string" where
  "trim t = rev (dropWhile is_space (rev (dropWhile is_space t)))"

definition startsWith :: "string \<Rightarrow> string \<Rightarrow> bool" where
  "startsWith t p \<longleftrightarrow> take (length p) t = p"

text \<open>\<open>t.replace(pat, rep)\<close> with a string pattern: the first occurrence only.\<close>

fun replace_first :: "string \<Rightarrow> string \<Rightarrow> string \<Rightarrow> string" where
  "replace_first pat rep [] = (if pat = [] then rep else [])"
| "replace_first pat rep (ch # t) =
     (if startsWith (ch # t) pat then rep @ drop (length pat) (ch # t)
      else ch # replace_first pat rep t)"

text \<open>\<open>t.split('\n')\<close>: one more piece than there are newlines.\<close>

fun split_newline :: "string \<Rightarrow> string list" where
  "split_newline [] = [[]]"
| "split_newline (ch # t) =
     (if ch = CHR 0x0A then [] # split_newline t
      else (case split_newline t of [] \<Rightarrow> [[ch]] | l # ls \<Rightarrow> (ch # l) # ls))"

subsection \<open>The read loop\<close>

text \<open>
  The callbacks are taken to return normally and are recorded as events in call order.
  \<open>JSON.parse\<close> belongs to the runtime: it is the parameter \<open>parse\<close>, with \<open>None\<close> for a
  thrown \<open>SyntaxError\<close>.
  A read of the body gives the text that the decoder makes of the bytes read, or throws;
  after the last read of the list the reader reports \<open>done\<close>.
\<close>

datatype event = OnChunk json | OnComplete string | OnError js_error

datatype read_result = ReadValue string | ReadThrows js_error

datatype fetch_result = FetchThrows js_error | FetchResponse bool string "read_result list"

type_synonym session = "string \<times> event list"

definition is_frame :: "string \<Rightarrow> bool" where
  "is_frame line \<longleftrightarrow> startsWith (trim line) ''data:''"

definition frame_data :: "string \<Rightarrow> string" where
  "frame_data line = trim (replace_first ''data:'' [] line)"

text \<open>The body of the \<open>for\<close> loop, on the session \<open>(fullText, events)\<close>.\<close>

definition process_line :: "(string \<Rightarrow> json option) \<Rightarrow> session \<Rightarrow> string \<Rightarrow> session" where
  "process_line parse st line =
     (let data = frame_data line
      in if data = ''[DONE]'' then st
         else (case parse data of
                 None \<Rightarrow> st
               | Some parsed \<Rightarrow>
                   (case delta_content parsed of
                      None \<Rightarrow> st
                    | Some delta \<Rightarrow>
                        if truthy_json delta
                        then (fst st @ ToString delta, snd st @ [OnChunk delta])
                        else st)))"

definition process_chunk :: "(string \<Rightarrow> json option) \<Rightarrow> session \<Rightarrow> string \<Rightarrow> session" where
  "process_chunk parse st chunk =
     foldl (process_line parse) st (filter is_frame (split_newline chunk))"

fun read_loop :: "(string \<Rightarrow> json option) \<Rightarrow> read_result list \<Rightarrow> session \<Rightarrow> event list" where
  "read_loop parse [] st = snd st @ [OnComplete (fst st)]"
| "read_loop parse (ReadValue chunk # rest) st = read_loop parse rest (process_chunk parse st chunk)"
| "read_loop parse (ReadThrows e # rest) st = snd st @ [OnError e]"

text \<open>
  \<open>stream(options, onChunk, onComplete, onError)\<close>: the events and the cache afterwards.
  Without a Cerebras key it calls \<open>call\<close> with \<open>stream: false\<close>; otherwise \<open>fetched\<close>
  is what its one \<open>fetch\<close> gives.
\<close>

definition ApiService_stream ::
  "(string \<Rightarrow> json option) \<Rightarrow> adapters \<Rightarrow> fetch_result \<Rightarrow> ResponseCache \<Rightarrow> int \<Rightarrow> int
     \<Rightarrow> call_options \<Rightarrow> event list \<times> ResponseCache" where
  "ApiService_stream parse net fetched c t_get t_set options =
     (let apiKeys' = or_default (apiKeys options) \<lparr>cerebras = None, gemini = None\<rparr>
      in case truthy (cerebras apiKeys') of
           None \<Rightarrow>
             (case ApiService_call net c t_get t_set (options\<lparr>stream := Some False\<rparr>) of
                (Inr result, c', _) \<Rightarrow>
                  ([OnChunk (JStr (response result)), OnComplete (response result)], c')
              | (Inl error, c', _) \<Rightarrow> ([OnError error], c'))
         | Some cerebrasKey \<Rightarrow>
             (case fetched of
                FetchThrows error \<Rightarrow> ([OnError error], c)
              | FetchResponse ok statusText body \<Rightarrow>
                  if \<not> ok then ([OnError (Error (''Cerebras streaming error: '' @ statusText))], c)
                  else (read_loop parse body ([], []), c)))"

subsection \<open>Names for what a session emits\<close>

text \<open>
  The delta that the loop body emits for one line (\<open>None\<close> when it emits nothing), the
  deltas of a list of lines in order, and those of the lines that pass the filter.
\<close>

definition frame_delta :: "(string \<Rightarrow> json option) \<Rightarrow> string \<Rightarrow> json option" where
  "frame_delta parse line =
     (let data = frame_data line
      in if data = ''[DONE]'' then None
         else (case parse data of
                 None \<Rightarrow> None
               | Some parsed \<Rightarrow>
                   (case delta_content parsed of
                      None \<Rightarrow> None
                    | Some delta \<Rightarrow> if truthy_json delta then Some delta else None)))"

fun deltas :: "(string \<Rightarrow> json option) \<Rightarrow> string list \<Rightarrow> json list" where
  "deltas parse [] = []"
| "deltas parse (l # ls) =
     (case frame_delta parse l of None \<Rightarrow> deltas parse ls | Some d \<Rightarrow> d # deltas parse ls)"

definition emitted :: "(string \<Rightarrow> json option) \<Rightarrow> string list \<Rightarrow> json list" where
  "emitted parse lines = deltas parse (filter is_frame lines)"

text \<open>The arguments of the three callbacks, in call order.\<close>

fun chunk_args :: "event list \<Rightarrow> json list" where
  "chunk_args [] = []"
| "chunk_args (OnChunk d # es) = d # chunk_args es"
| "chunk_args (e # es) = chunk_args es"

fun complete_args :: "event list \<Rightarrow> string list" where
  "complete_args [] = []"
| "complete_args (OnComplete t # es) = t # complete_args es"
| "complete_args (e # es) = complete_args es"

fun error_args :: "event list \<Rightarrow> js_error list" where
  "error_args [] = []"
| "error_args (OnError e # es) = e # error_args es"
| "error_args (e # es) = error_args es"

text \<open>A text made of whole lines, each ended by a newline.\<close>

definition join_lines :: "string list \<Rightarrow> string" where
  "join_lines ls = concat (map (\<lambda>l. l @ [CHR 0x0A]) ls)"

section \<open>A reading of \<open>JSON.parse\<close> for concrete frames\<close>

text \<open>
  The theorems about the decoder hold for every \<open>parse\<close>. To run the decoder on concrete
  frames, \<open>JSON_parse\<close> reads a fragment of the JSON grammar: all of it, except that a
  number is a plain integer of at most 15 digits (its text is then what \<open>String\<close> gives
  for it, \<open>-0\<close> apart) and that a unicode escape stays below 256. On a text outside the
  fragment it gives \<open>None\<close>; the frames below lie inside. The fuel of the mutual
  recursion is the length of the text, which bounds the number of values in it.
\<close>

definition is_json_ws :: "char \<Rightarrow> bool" where
  "is_json_ws ch \<longleftrightarrow> (of_char ch :: nat) \<in> {9, 10, 13, 32}"

definition skip_ws :: "string \<Rightarrow> string" where
  "skip_ws t = dropWhile is_json_ws t"

definition is_digit :: "char \<Rightarrow> bool" where
  "is_digit ch \<longleftrightarrow> 48 \<le> (of_char ch :: nat) \<and> (of_char ch :: nat) \<le> 57"

definition hex_value :: "char \<Rightarrow> nat option" where
  "hex_value ch =
     (let n = (of_char ch :: nat)
      in if 48 \<le> n \<and> n \<le> 57 then Some (n - 48)
         else if 65 \<le> n \<and> n \<le> 70 then Some (n - 55)
         else if 97 \<le> n \<and> n \<le> 102 then Some (n - 87)
         else None)"

fun hex_number :: "nat \<Rightarrow> string \<Rightarrow> nat option" where
  "hex_number acc [] = Some acc"
| "hex_number acc (ch # t) =
     (case hex_value ch of None \<Rightarrow> None | Some d \<Rightarrow> hex_number (16 * acc + d) t)"

definition unicode_escape :: "string \<Rightarrow> char option" where
  "unicode_escape t =
     (if length t \<noteq> 4 then None
      else (case hex_number 0 t of
              None \<Rightarrow> None
            | Some n \<Rightarrow> if n < 256 then Some (char_of n) else None))"

definition simple_escape :: "char \<Rightarrow> char option" where
  "simple_escape ch =
     (if ch = CHR 0x22 then Some (CHR 0x22)
      else if ch = CHR 0x5C then Some (CHR 0x5C)
      else if ch = CHR ''/'' then Some (CHR ''/'')
      else if ch = CHR ''b'' then Some (CHR 0x08)
      else if ch = CHR ''f'' then Some (CHR 0x0C)
      else if ch = CHR ''n'' then Some (CHR 0x0A)
      else if ch = CHR ''r'' then Some (CHR 0x0D)
      else if ch = CHR ''t'' then Some (CHR 0x09)
      else None)"

definition cons_result :: "char \<Rightarrow> (string \<times> string) option \<Rightarrow> (string \<times> string) option" where
  "cons_result ch r = (case r of None \<Rightarrow> None | Some (t, rest) \<Rightarrow> Some (ch # t, rest))"

function json_string :: "string \<Rightarrow> (string \<times> string) option" where
  "json_string [] = None"
| "json_string (ch # t) =
     (if ch = CHR 0x22 then Some ([], t)
      else if (of_char ch :: nat) < 32 then None
      else if ch \<noteq> CHR 0x5C then cons_result ch (json_string t)
      else (case t of
              [] \<Rightarrow> None
            | e # r \<Rightarrow>
                (case simple_escape e of
                   Some x \<Rightarrow> cons_result x (json_string r)
                 | None \<Rightarrow>
                     if e = CHR ''u''
                     then (case unicode_escape (take 4 r) of
                             None \<Rightarrow> None
                           | Some x \<Rightarrow> cons_result x (json_string (drop 4 r)))
                     else None)))"
  by pat_completeness auto
termination
  by (relation "measure length") auto

definition json_number :: "string \<Rightarrow> (json \<times> string) option" where
  "json_number t =
     (let neg = startsWith t ''-'';
          t1 = (if neg then drop 1 t else t);
          ds = takeWhile is_digit t1;
          rest = dropWhile is_digit t1
      in if ds = [] \<or> (1 < length ds \<and> startsWith ds ''0'') \<or> 15 < length ds then None
         else if startsWith rest ''.'' \<or> startsWith rest ''e'' \<or> startsWith rest ''E'' then None
         else Some (JNum (if neg \<and> ds \<noteq> ''0'' then CHR ''-'' # ds else ds), rest))"

fun json_value :: "nat \<Rightarrow> string \<Rightarrow> (json \<times> string) option"
  and json_elements :: "nat \<Rightarrow> json list \<Rightarrow> string \<Rightarrow> (json \<times> string) option"
  and json_members :: "nat \<Rightarrow> (string \<times> json) list \<Rightarrow> string \<Rightarrow> (json \<times> string) option"
where
  "json_value 0 t = None"
| "json_value (Suc n) t =
     (let u = skip_ws t
      in if startsWith u ''null'' then Some (JNull, drop 4 u)
         else if startsWith u ''true'' then Some (JBool True, drop 4 u)
         else if startsWith u ''false'' then Some (JBool False, drop 5 u)
         else if startsWith u [CHR 0x22]
           then (case json_string (drop 1 u) of
                   None \<Rightarrow> None
                 | Some (x, rest) \<Rightarrow> Some (JStr x, rest))
         else if startsWith u ''[''
           then (if startsWith (skip_ws (drop 1 u)) '']''
                 then Some (JArr [], drop 1 (skip_ws (drop 1 u)))
                 else json_elements n [] (drop 1 u))
         else if startsWith u ''{''
           then (if startsWith (skip_ws (drop 1 u)) ''}''
                 then Some (JObj [], drop 1 (skip_ws (drop 1 u)))
                 else json_members n [] (drop 1 u))
         else json_number u)"
| "json_elements 0 acc t = None"
| "json_elements (Suc n) acc t =
     (case json_value n t of
        None \<Rightarrow> None
      | Some (v, rest) \<Rightarrow>
          (let u = skip_ws rest
           in if startsWith u '','' then json_elements n (acc @ [v]) (drop 1 u)
              else if startsWith u '']'' then Some (JArr (acc @ [v]), drop 1 u)
              else None))"
| "json_members 0 acc t = None"
| "json_members (Suc n) acc t =
     (let u = skip_ws t
      in if \<not> startsWith u [CHR 0x22] then None
         else (case json_string (drop 1 u) of
                 None \<Rightarrow> None
               | Some (k, rest) \<Rightarrow>
                   (let u1 = skip_ws rest
                    in if \<not> startsWith u1 '':'' then None
                       else (case json_value n (drop 1 u1) of
                               None \<Rightarrow> None
                             | Some (v, rest1) \<Rightarrow>
                                 (let u2 = skip_ws rest1
                                  in if startsWith u2 '','' then json_members n (acc @ [(k, v)]) (drop 1 u2)
                                     else if startsWith u2 ''}'' then Some (JObj (acc @ [(k, v)]), drop 1 u2)
                                     else None)))))"

definition JSON_parse :: "string \<Rightarrow> json option" where
  "JSON_parse t =
     (case json_value (Suc (length t)) t of
        None \<Rightarrow> None
      | Some (v, rest) \<Rightarrow> if skip_ws rest = [] then Some v else None)"


section \<open>Concrete inputs\<close>

text \<open>One hundred stores under distinct keys fill the cache of the program.\<close>

definition fill_ops :: "cache_op list" where
  "fill_ops = map (\<lambda>i. Set (toString36 i) ''r'' i) [0..99]"

definition full_cache :: ResponseCache where
  "full_cache = run_cache_ops ResponseCache_init fill_ops"

text \<open>The same stores followed by a lookup of the oldest key, which hits.\<close>

definition fill_then_get :: "cache_op list" where
  "fill_then_get = fill_ops @ [Get ''0'' 50]"

text \<open>Adapters that answer \<open>4\<close>, and adapters that both throw.\<close>

definition adapters_up :: adapters where
  "adapters_up =
     \<lparr>Cerebras_call = (\<lambda>prompt apiKey context model systemPrompt. Inr ''4''),
      Gemini_call = (\<lambda>prompt apiKey context systemPrompt. Inr ''4'')\<rparr>"

definition adapters_down :: adapters where
  "adapters_down =
     \<lparr>Cerebras_call = (\<lambda>prompt apiKey context model systemPrompt. Inl (Error ''Cerebras API error: Bad Gateway'')),
      Gemini_call = (\<lambda>prompt apiKey context systemPrompt. Inl (Error ''Gemini API error: Forbidden''))\<rparr>"

definition adapters_failover :: adapters where
  "adapters_failover =
     \<lparr>Cerebras_call = (\<lambda>prompt apiKey context model systemPrompt. Inl (Error ''Cerebras API error: Bad Gateway'')),
      Gemini_call = (\<lambda>prompt apiKey context systemPrompt. Inr ''4'')\<rparr>"

definition request :: "api_keys \<Rightarrow> call_options" where
  "request keys =
     \<lparr>systemPrompt = Some ''S'', userPrompt = ''2+2?'', apiKeys = Some keys,
      model = Some ''m1'', useCache = Some True, stream = None\<rparr>"

definition primary_only :: api_keys where
  "primary_only = \<lparr>cerebras = Some ''k1'', gemini = None\<rparr>"

definition secondary_only :: api_keys where
  "secondary_only = \<lparr>cerebras = None, gemini = Some ''k2''\<rparr>"

definition both_keys :: api_keys where
  "both_keys = \<lparr>cerebras = Some ''k1'', gemini = Some ''k2''\<rparr>"

definition no_keys :: api_keys where
  "no_keys = \<lparr>cerebras = None, gemini = None\<rparr>"

text \<open>The cache after a first call at clock 0 (lookup) and 5 (store) with adapters that answer.\<close>

definition after_first :: "api_keys \<Rightarrow> ResponseCache" where
  "after_first keys = fst (snd (ApiService_call adapters_up ResponseCache_init 0 5 (request keys)))"

text \<open>Event frames of a stream, each ended by a newline.\<close>

definition frame_Hi :: string where
  "frame_Hi = ''data: {\"choices\":[{\"index\":0,\"delta\":{\"content\":\"Hi\"},\"finish_reason\":null}]}'' @ [CHR 0x0A]"

definition frame_there :: string where
  "frame_there = ''data: {\"choices\":[{\"index\":0,\"delta\":{\"content\":\" there\"},\"finish_reason\":null}]}'' @ [CHR 0x0A]"



definition frame_corrupt :: string where
  "frame_corrupt = ''data: {\"choices\":[{\"index\":0,\"delta\":{\"content\":\"Oops'' @ [CHR 0x0A]"

definition frame_done :: string where
  "frame_done = ''data: [DONE]'' @ [CHR 0x0A]"

section \<open>Properties of the response cache\<close>

subsection \<open>Auxiliary facts\<close>

lemma hash_string_append: "hash_string (xs @ ys) = foldl hash_step (hash_string xs) ys"
  by (simp add: hash_string_def)

lemma hash_step_Aa_BB:
  "hash_step (hash_step h CHR ''A'') CHR ''a'' = hash_step (hash_step h CHR ''B'') CHR ''B''"
  by (simp add: hash_step_def push_bit_eq_mult algebra_simps)

lemma generateKey_Aa_BB: "generateKey s ''Aa'' m = generateKey s ''BB'' m"
  by (simp add: generateKey_def hash_string_append hash_step_Aa_BB del: append_assoc flip: append_assoc)

lemma generateKey_range:
  "range (\<lambda>(s, u, m). generateKey s u m) \<subseteq> (\<lambda>w. toString36 (sint w)) ` (UNIV :: 32 word set)"
  by (auto simp: generateKey_def)

lemma generateKey_card:
  "finite (range (\<lambda>(s, u, m). generateKey s u m)) \<and>
   card (range (\<lambda>(s, u, m). generateKey s u m)) \<le> 2 ^ 32"
proof -
  let ?R = "range (\<lambda>(s, u, m). generateKey s u m)"
  let ?W = "(\<lambda>w. toString36 (sint w)) ` (UNIV :: 32 word set)"
  have fin: "finite ?W" by simp
  have "card ?W \<le> card (UNIV :: 32 word set)" by (rule card_image_le) simp
  also have "\<dots> = 2 ^ 32" by (simp add: card_word)
  finally have cw: "card ?W \<le> 2 ^ 32" .
  have "card ?R \<le> card ?W" by (rule card_mono [OF fin generateKey_range])
  with cw have "card ?R \<le> 2 ^ 32" by linarith
  moreover have "finite ?R" by (rule finite_subset [OF generateKey_range fin])
  ultimately show ?thesis by simp
qed

lemma Map_get_Map_set_same: "Map_get (Map_set m k v) k = Some v"
  by (induction m) (auto simp: Map_get_def)

lemma Map_get_Map_set_other: "k' \<noteq> k \<Longrightarrow> Map_get (Map_set m k v) k' = Map_get m k'"
  by (induction m) (auto simp: Map_get_def)

lemma get_after_set:
  "0 \<le> ttlMs c \<Longrightarrow> fst (ResponseCache_get (ResponseCache_set c key r now) key now) = Some r"
  by (simp add: ResponseCache_get_def ResponseCache_set_def Let_def Map_get_Map_set_same)

lemma length_Map_set: "length (Map_set m k v) \<le> Suc (length m)"
  by (induction m) auto

lemma length_Map_delete: "length (Map_delete m k) \<le> length m"
  by (simp add: Map_delete_def)

lemma length_evict_oldest: "m \<noteq> [] \<Longrightarrow> length (evict_oldest m) < length m"
  by (cases m) (auto simp: evict_oldest_def Map_first_key_def Map_delete_def intro: le_imp_less_Suc)

lemma keys_Map_set: "set (map fst (Map_set m k v)) = insert k (set (map fst m))"
  by (induction m) auto

lemma distinct_Map_set: "distinct (map fst m) \<Longrightarrow> distinct (map fst (Map_set m k v))"
proof (induction m)
  case Nil
  then show ?case by simp
next
  case (Cons p ps)
  then show ?case
    using keys_Map_set [of ps k v] by (cases "fst p = k") auto
qed

lemma distinct_Map_delete: "distinct (map fst m) \<Longrightarrow> distinct (map fst (Map_delete m k))"
  by (simp add: Map_delete_def distinct_map_filter)

lemma distinct_evict_oldest: "distinct (map fst m) \<Longrightarrow> distinct (map fst (evict_oldest m))"
  by (cases m) (auto simp: evict_oldest_def Map_first_key_def Map_delete_def distinct_map_filter)

lemma Map_delete_head: "k \<notin> set (map fst ps) \<Longrightarrow> Map_delete ((k, e) # ps) k = ps"
  by (induction ps) (auto simp: Map_delete_def)

lemma evict_oldest_tl: "distinct (map fst m) \<Longrightarrow> evict_oldest m = tl m"
  by (cases m) (auto simp: evict_oldest_def Map_first_key_def Map_delete_head)

lemma Map_set_new: "k \<notin> set (map fst m) \<Longrightarrow> Map_set m k v = m @ [(k, v)]"
  by (induction m) auto

lemma cache_inv_get: "cache_inv c \<Longrightarrow> cache_inv (snd (ResponseCache_get c key now))"
  using length_Map_delete [of "cache c" key]
  by (auto simp: cache_inv_def ResponseCache_get_def Map_size_def Map_keys_def distinct_Map_delete
      split: option.splits)

lemma cache_inv_set: 
  assumes "cache_inv c" shows "cache_inv (ResponseCache_set c key r now)"
proof (cases "maxSize c \<le> Map_size (cache c)")
  case True
  with assms have ne: "cache c \<noteq> []" by (auto simp: cache_inv_def Map_size_def)
  let ?v = "\<lparr>entry_response = r, timestamp = now\<rparr>"
  have "length (Map_set (evict_oldest (cache c)) key ?v) \<le> Suc (length (evict_oldest (cache c)))"
    by (rule length_Map_set)
  also have "\<dots> \<le> length (cache c)" using length_evict_oldest [OF ne] by simp
  finally have "length (Map_set (evict_oldest (cache c)) key ?v) \<le> maxSize c"
    using assms by (simp add: cache_inv_def Map_size_def)
  with assms True show ?thesis
    by (simp add: cache_inv_def ResponseCache_set_def Map_size_def Map_keys_def
        distinct_Map_set distinct_evict_oldest)
next
  case False
  let ?v = "\<lparr>entry_response = r, timestamp = now\<rparr>"
  have "length (Map_set (cache c) key ?v) \<le> Suc (length (cache c))" by (rule length_Map_set)
  with False have "length (Map_set (cache c) key ?v) \<le> maxSize c" by (simp add: Map_size_def)
  with assms False show ?thesis
    by (simp add: cache_inv_def ResponseCache_set_def Map_size_def Map_keys_def distinct_Map_set)
qed

lemma cache_inv_clear: "cache_inv c \<Longrightarrow> cache_inv (ResponseCache_clear c)"
  by (simp add: cache_inv_def ResponseCache_clear_def Map_size_def Map_keys_def)

lemma cache_inv_op: "cache_inv c \<Longrightarrow> cache_inv (apply_cache_op c x)"
  by (cases x) (simp_all add: cache_inv_get cache_inv_set cache_inv_clear)

lemma cache_inv_run: "cache_inv c \<Longrightarrow> cache_inv (run_cache_ops c ops)"
  unfolding run_cache_ops_def
  by (induction ops arbitrary: c) (simp_all add: cache_inv_op)

lemma maxSize_get [simp]: "maxSize (snd (ResponseCache_get c key now)) = maxSize c"
  by (simp add: ResponseCache_get_def split: option.splits)

lemma maxSize_set [simp]: "maxSize (ResponseCache_set c key r now) = maxSize c"
  by (simp add: ResponseCache_set_def Let_def)

lemma maxSize_clear [simp]: "maxSize (ResponseCache_clear c) = maxSize c"
  by (simp add: ResponseCache_clear_def)

lemma maxSize_op [simp]: "maxSize (apply_cache_op c x) = maxSize c"
  by (cases x) simp_all

lemma maxSize_run [simp]: "maxSize (run_cache_ops c ops) = maxSize c"
  unfolding run_cache_ops_def
  by (induction ops arbitrary: c) simp_all

lemma set_at_capacity_new:
  assumes "cache_inv c" "Map_size (cache c) = maxSize c" "key \<notin> set (Map_keys (cache c))"
  shows "cache (ResponseCache_set c key r now) = tl (cache c) @ [(key, \<lparr>entry_response = r, timestamp = now\<rparr>)]"
proof -
  from assms(1) have d: "distinct (map fst (cache c))" by (simp add: cache_inv_def Map_keys_def)
  have "key \<notin> set (map fst (tl (cache c)))"
    using assms(3) by (cases "cache c") (auto simp: Map_keys_def)
  then show ?thesis
    using assms(2) by (simp add: ResponseCache_set_def evict_oldest_tl [OF d] Map_set_new)
qed

lemma Map_get_Map_delete: "Map_get (Map_delete m k0) k = (if k = k0 then None else Map_get m k)"
  by (induction m) (auto simp: Map_get_def Map_delete_def)

lemma Map_get_evict_oldest:
  "Map_get (evict_oldest m) k = (if Map_first_key m = Some k then None else Map_get m k)"
proof (cases m)
  case Nil
  then show ?thesis by (simp add: evict_oldest_def Map_first_key_def)
next
  case (Cons p ps)
  then have "Map_first_key m = Some (fst p)"
    by (simp add: Map_first_key_def split: prod.splits)
  then show ?thesis by (auto simp: evict_oldest_def Map_get_Map_delete)
qed

lemma full_cache_eq:
  "full_cache =
     \<lparr>cache = map (\<lambda>i. (toString36 i, \<lparr>entry_response = ''r'', timestamp = i\<rparr>)) [0..99],
      maxSize = 100, ttlMs = 1800000\<rparr>"
  by code_simp

lemma full_cache_size: "Map_size (cache full_cache) = 100"
  by (simp add: full_cache_eq Map_size_def)

lemma full_cache_maxSize: "maxSize full_cache = 100"
  by (simp add: full_cache_eq)

lemma full_cache_keys: "Map_keys (cache full_cache) = map toString36 [0..99]"
  by (simp add: full_cache_eq Map_keys_def comp_def)

lemma full_cache_new_key: "''new'' \<notin> set (Map_keys (cache full_cache))"
  unfolding full_cache_keys by code_simp

lemma full_cache_oldest: "Map_first_key (cache full_cache) = Some ''0''"
  unfolding full_cache_eq by code_simp

lemma full_cache_get_0: "Map_get (cache full_cache) ''0'' = Some \<lparr>entry_response = ''r'', timestamp = 0\<rparr>"
  unfolding full_cache_eq by code_simp

lemma full_cache_get_1: "Map_get (cache full_cache) ''1'' = Some \<lparr>entry_response = ''r'', timestamp = 1\<rparr>"
  unfolding full_cache_eq by code_simp

lemma full_cache_get_2: "Map_get (cache full_cache) ''2'' = Some \<lparr>entry_response = ''r'', timestamp = 2\<rparr>"
  unfolding full_cache_eq by code_simp

lemma Map_keys_Map_delete: "Map_keys (Map_delete m k) = filter (\<lambda>x. x \<noteq> k) (Map_keys m)"
  by (simp add: Map_keys_def Map_delete_def filter_map comp_def)

lemma Map_keys_evict_oldest:
  "\<exists>P. Map_keys (evict_oldest m) = filter P (Map_keys m)"
proof (cases "Map_first_key m")
  case None
  then have "Map_keys (evict_oldest m) = filter (\<lambda>x. True) (Map_keys m)"
    by (simp add: evict_oldest_def)
  then show ?thesis by blast
next
  case (Some k)
  then have "Map_keys (evict_oldest m) = filter (\<lambda>x. x \<noteq> k) (Map_keys m)"
    by (simp add: evict_oldest_def Map_keys_Map_delete)
  then show ?thesis by blast
qed

lemma Map_keys_Map_set_present:
  "k \<in> set (Map_keys m) \<Longrightarrow> Map_keys (Map_set m k v) = Map_keys m"
  by (induction m) (auto simp: Map_keys_def)

lemma Map_keys_Map_set_new:
  "k \<notin> set (Map_keys m) \<Longrightarrow> Map_keys (Map_set m k v) = Map_keys m @ [k]"
  by (induction m) (auto simp: Map_keys_def)

lemma Map_get_None_iff: "Map_get m k = None \<longleftrightarrow> k \<notin> set (Map_keys m)"
  by (simp add: Map_get_def Map_keys_def map_of_eq_None_iff)

lemma order_inv_filter:
  assumes "order_inv c b n" and "Map_keys (cache c') = filter P (Map_keys (cache c))"
  shows "order_inv c' b (Suc n)"
proof -
  from assms(1) have "\<forall>k \<in> set (Map_keys (cache c)). \<exists>i. b k = Some i \<and> i < Suc n"
    by (auto simp: order_inv_def intro: less_SucI)
  moreover from assms(1) have "sorted_wrt (inserted_before b) (filter P (Map_keys (cache c)))"
    by (simp add: order_inv_def sorted_wrt_filter)
  ultimately show ?thesis by (simp add: order_inv_def assms(2))
qed

lemma order_inv_get: "order_inv c b n \<Longrightarrow> order_inv (snd (ResponseCache_get c key now)) b (Suc n)"
proof -
  assume inv: "order_inv c b n"
  have "Map_keys (cache (snd (ResponseCache_get c key now))) = filter (\<lambda>x. True) (Map_keys (cache c)) \<or>
        Map_keys (cache (snd (ResponseCache_get c key now))) = filter (\<lambda>x. x \<noteq> key) (Map_keys (cache c))"
    by (simp add: ResponseCache_get_def Map_keys_Map_delete split: option.splits)
  then show ?thesis using order_inv_filter [OF inv] by blast
qed

lemma order_inv_clear: "order_inv (ResponseCache_clear c) b (Suc n)"
  by (simp add: order_inv_def ResponseCache_clear_def Map_keys_def)

lemma order_inv_set:
  assumes inv: "order_inv c b n"
  shows "order_inv (ResponseCache_set c key r now)
           (if Set_inserts c key then b(key \<mapsto> n) else b) (Suc n)"
proof -
  let ?m = "if Map_size (cache c) \<ge> maxSize c then evict_oldest (cache c) else cache c"
  let ?v = "\<lparr>entry_response = r, timestamp = now\<rparr>"
  obtain P where P: "Map_keys ?m = filter P (Map_keys (cache c))"
  proof (cases "Map_size (cache c) \<ge> maxSize c")
    case True
    with Map_keys_evict_oldest [of "cache c"] that show ?thesis by auto
  next
    case False
    then have "Map_keys ?m = filter (\<lambda>x. True) (Map_keys (cache c))" by simp
    with that show ?thesis by blast
  qed
  have cache': "cache (ResponseCache_set c key r now) = Map_set ?m key ?v"
    by (simp add: ResponseCache_set_def)
  have bound: "\<forall>k \<in> set (Map_keys ?m). \<exists>i. b k = Some i \<and> i < n"
    using inv unfolding P by (auto simp: order_inv_def)
  have sorted: "sorted_wrt (inserted_before b) (Map_keys ?m)"
    using inv unfolding P by (simp add: order_inv_def sorted_wrt_filter)
  show ?thesis
  proof (cases "Set_inserts c key")
    case False
    then have "key \<in> set (Map_keys ?m)"
      by (simp add: Set_inserts_def Map_get_None_iff)
    then have "Map_keys (cache (ResponseCache_set c key r now)) = Map_keys ?m"
      unfolding cache' by (rule Map_keys_Map_set_present)
    moreover have "\<forall>k \<in> set (Map_keys ?m). \<exists>i. b k = Some i \<and> i < Suc n"
      using bound by (meson less_SucI)
    ultimately show ?thesis
      using False sorted by (simp add: order_inv_def)
  next
    case True
    then have new: "key \<notin> set (Map_keys ?m)"
      by (simp add: Set_inserts_def Map_get_None_iff)
    then have keys: "Map_keys (cache (ResponseCache_set c key r now)) = Map_keys ?m @ [key]"
      unfolding cache' by (rule Map_keys_Map_set_new)
    let ?b = "b(key \<mapsto> n)"
    have old: "?b k = b k" if "k \<in> set (Map_keys ?m)" for k
      using that new by auto
    have s1: "sorted_wrt (inserted_before ?b) (Map_keys ?m)"
    proof (rule sorted_wrt_mono_rel [OF _ sorted])
      fix x y
      assume "x \<in> set (Map_keys ?m)" "y \<in> set (Map_keys ?m)" "inserted_before b x y"
      then show "inserted_before ?b x y"
        by (simp only: inserted_before_def old)
    qed
    have s2: "\<forall>k \<in> set (Map_keys ?m). inserted_before ?b k key"
    proof
      fix k
      assume k: "k \<in> set (Map_keys ?m)"
      with bound obtain i where "b k = Some i" "i < n" by blast
      with old [OF k] have "?b k = Some i" by simp
      moreover have "?b key = Some n" by simp
      ultimately show "inserted_before ?b k key"
        using \<open>i < n\<close> by (simp only: inserted_before_def option.case)
    qed
    have "\<forall>k \<in> set (Map_keys ?m). \<exists>i. ?b k = Some i \<and> i < Suc n"
      using bound old by (metis less_SucI)
    then have b1: "\<forall>k \<in> set (Map_keys ?m @ [key]). \<exists>i. ?b k = Some i \<and> i < Suc n"
      by simp
    from s1 s2 b1 True show ?thesis
      by (simp add: order_inv_def keys sorted_wrt_append)
  qed
qed

lemma order_inv_run:
  "order_inv c b n \<Longrightarrow>
   order_inv (run_cache_ops c ops) (insertion_index c n ops b) (n + length ops)"
proof (induction ops arbitrary: c b n)
  case Nil
  then show ?case by (simp add: run_cache_ops_def)
next
  case (Cons x ops)
  let ?b = "case x of Set key r now \<Rightarrow> if Set_inserts c key then b(key \<mapsto> n) else b | _ \<Rightarrow> b"
  have "order_inv (apply_cache_op c x) ?b (Suc n)"
    using Cons.prems
    by (cases x) (simp_all add: order_inv_get order_inv_set order_inv_clear)
  from Cons.IH [OF this] show ?case by (simp add: run_cache_ops_def)
qed

lemma keys_in_insertion_order:
  assumes "cache c0 = []"
  shows "sorted_wrt (inserted_before (inserted_at c0 ops)) (Map_keys (cache (run_cache_ops c0 ops)))"
proof -
  have "order_inv c0 (\<lambda>k. None) 0" using assms by (simp add: order_inv_def Map_keys_def)
  from order_inv_run [OF this, of ops] show ?thesis
    by (simp add: order_inv_def inserted_at_def)
qed

lemma get_never_moves:
  "snd (ResponseCache_get c key now) = c \<or>
   (fst (ResponseCache_get c key now) = None \<and>
    cache (snd (ResponseCache_get c key now)) = Map_delete (cache c) key)"
  by (simp add: ResponseCache_get_def split: option.splits)

lemma full_cache_ttlMs: "ttlMs full_cache = 1800000"
  by (simp add: full_cache_eq)

lemma full_cache_get_hit: "ResponseCache_get full_cache ''0'' 50 = (Some ''r'', full_cache)"
  by (simp add: ResponseCache_get_def full_cache_get_0 full_cache_ttlMs)

lemma run_fill_then_get: "run_cache_ops ResponseCache_init fill_then_get = full_cache"
  by (simp add: fill_then_get_def run_cache_ops_def full_cache_get_hit
      full_cache_def [unfolded run_cache_ops_def, symmetric])

lemma inserted_at_0: "inserted_at ResponseCache_init fill_then_get ''0'' = Some 0"
  by code_simp

lemma inserted_at_1: "inserted_at ResponseCache_init fill_then_get ''1'' = Some 1"
  by code_simp

subsection \<open>The key function\<close>

text \<open>
  Claim C10. \<open>generateKey\<close> renders a 32-bit signed hash in base 36, so all triples
  \<open>(systemPrompt, userPrompt, model)\<close> together receive at most \<open>2 ^ 32\<close> keys. Two
  requests that differ in the user prompt alone can receive the same key, whatever the
  system prompt and the model are, and a response stored for one of them is then what a
  lookup for the other one returns.
\<close>

theorem generateKey_range_and_collision:
  "finite (range (\<lambda>(s, u, m). generateKey s u m)) \<and>
   card (range (\<lambda>(s, u, m). generateKey s u m)) \<le> 2 ^ 32 \<and>
   (\<exists>u1 u2. u1 \<noteq> u2 \<and>
      (\<forall>s m. generateKey s u1 m = generateKey s u2 m) \<and>
      (\<forall>s m r now.
         fst (ResponseCache_get
                (ResponseCache_set ResponseCache_init (generateKey s u1 m) r now)
                (generateKey s u2 m) now) = Some r))"
proof -
  have ttl: "0 \<le> ttlMs ResponseCache_init" by (simp add: ResponseCache_init_def)
  have "''Aa'' \<noteq> ''BB''" by simp
  moreover have "\<forall>s m. generateKey s ''Aa'' m = generateKey s ''BB'' m"
    by (simp add: generateKey_Aa_BB)
  moreover have "\<forall>s m r now.
         fst (ResponseCache_get
                (ResponseCache_set ResponseCache_init (generateKey s ''Aa'' m) r now)
                (generateKey s ''BB'' m) now) = Some r"
    using get_after_set [OF ttl] by (simp add: generateKey_Aa_BB)
  ultimately show ?thesis using generateKey_card by blast
qed

subsection \<open>Size bound and eviction order\<close>

text \<open>
  Claim C8. Starting from an empty cache with a positive \<open>maxSize\<close>, after any
  sequence of \<open>get\<close>, \<open>set\<close> and \<open>clear\<close>: the size does not exceed \<open>maxSize\<close>;
  the keys of the map stand in the order in which their entries were inserted; a
  lookup leaves the cache as it is or deletes the expired entry it found, and moves
  nothing; and a \<open>set\<close> of a new key into a cache that holds \<open>maxSize\<close> entries
  removes exactly one entry, the one inserted before every other entry still present,
  and appends the new one.
\<close>

theorem cache_size_bounded_fifo:
  assumes "cache c0 = []" and "0 < maxSize c0" and "c = run_cache_ops c0 ops"
  shows "Map_size (cache c) \<le> maxSize c0 \<and>
         sorted_wrt (inserted_before (inserted_at c0 ops)) (Map_keys (cache c)) \<and>
         (snd (ResponseCache_get c k t) = c \<or>
          (fst (ResponseCache_get c k t) = None \<and>
           cache (snd (ResponseCache_get c k t)) = Map_delete (cache c) k)) \<and>
         (Map_size (cache c) = maxSize c0 \<and> key \<notin> set (Map_keys (cache c)) \<longrightarrow>
            cache (ResponseCache_set c key r now) =
              tl (cache c) @ [(key, \<lparr>entry_response = r, timestamp = now\<rparr>)] \<and>
            (\<exists>oldest. Map_first_key (cache c) = Some oldest \<and>
               Map_get (cache (ResponseCache_set c key r now)) oldest = None \<and>
               (\<forall>k' \<in> set (Map_keys (cache c)). k' \<noteq> oldest \<longrightarrow>
                  inserted_before (inserted_at c0 ops) oldest k')))"
proof -
  have "cache_inv c0" using assms(1,2) by (simp add: cache_inv_def Map_size_def Map_keys_def)
  then have inv: "cache_inv c" unfolding assms(3) by (rule cache_inv_run)
  have m: "maxSize c = maxSize c0" by (simp add: assms(3))
  from inv m have size: "Map_size (cache c) \<le> maxSize c0" by (simp add: cache_inv_def)
  have order: "sorted_wrt (inserted_before (inserted_at c0 ops)) (Map_keys (cache c))"
    unfolding assms(3) by (rule keys_in_insertion_order [OF assms(1)])
  have full: "cache (ResponseCache_set c key r now) =
                tl (cache c) @ [(key, \<lparr>entry_response = r, timestamp = now\<rparr>)] \<and>
              (\<exists>oldest. Map_first_key (cache c) = Some oldest \<and>
                 Map_get (cache (ResponseCache_set c key r now)) oldest = None \<and>
                 (\<forall>k' \<in> set (Map_keys (cache c)). k' \<noteq> oldest \<longrightarrow>
                    inserted_before (inserted_at c0 ops) oldest k'))"
    if at: "Map_size (cache c) = maxSize c0" and new: "key \<notin> set (Map_keys (cache c))"
  proof -
    have eq: "cache (ResponseCache_set c key r now) =
                tl (cache c) @ [(key, \<lparr>entry_response = r, timestamp = now\<rparr>)]"
      using set_at_capacity_new [OF inv] at new m by simp
    from at assms(2) obtain p ps where c: "cache c = p # ps"
      by (cases "cache c") (auto simp: Map_size_def)
    let ?o = "fst p"
    have first: "Map_first_key (cache c) = Some ?o"
      by (simp add: c Map_first_key_def split: prod.splits)
    from inv have d: "distinct (Map_keys (cache c))" by (simp add: cache_inv_def)
    then have notin: "?o \<notin> set (Map_keys ps)" by (simp add: c Map_keys_def)
    from new have "key \<noteq> ?o" by (auto simp: c Map_keys_def)
    with notin have gone: "Map_get (cache (ResponseCache_set c key r now)) ?o = None"
      by (simp add: eq c Map_get_def Map_keys_def map_of_eq_None_iff)
    from order have "\<forall>k' \<in> set (Map_keys ps). inserted_before (inserted_at c0 ops) ?o k'"
      by (simp add: c Map_keys_def)
    then have "\<forall>k' \<in> set (Map_keys (cache c)). k' \<noteq> ?o \<longrightarrow>
                 inserted_before (inserted_at c0 ops) ?o k'"
      by (auto simp: c Map_keys_def)
    with eq first gone show ?thesis by blast
  qed
  from size order get_never_moves [of c k t] full show ?thesis by blast
qed

text \<open>
  The theorem at the cache of the program, filled by one hundred stores and then asked
  for the oldest key: the lookup hits, and the next new key still evicts that key.
\<close>

theorem cache_size_bounded_fifo_witness:
  "cache ResponseCache_init = [] \<and> 0 < maxSize ResponseCache_init \<and>
   full_cache = run_cache_ops ResponseCache_init fill_then_get \<and>
   Map_size (cache full_cache) = maxSize ResponseCache_init \<and>
   ''new'' \<notin> set (Map_keys (cache full_cache)) \<and>
   ResponseCache_get full_cache ''0'' 50 = (Some ''r'', full_cache) \<and>
   cache (ResponseCache_set full_cache ''new'' ''x'' 100) =
     tl (cache full_cache) @ [(''new'', \<lparr>entry_response = ''x'', timestamp = 100\<rparr>)] \<and>
   Map_first_key (cache full_cache) = Some ''0'' \<and>
   Map_get (cache (ResponseCache_set full_cache ''new'' ''x'' 100)) ''0'' = None \<and>
   inserted_at ResponseCache_init fill_then_get ''0'' = Some 0 \<and>
   inserted_at ResponseCache_init fill_then_get ''1'' = Some 1 \<and>
   inserted_before (inserted_at ResponseCache_init fill_then_get) ''0'' ''1''"
proof -
  have a: "cache ResponseCache_init = []" and b: "0 < maxSize ResponseCache_init"
    by (simp_all add: ResponseCache_init_def)
  have r: "full_cache = run_cache_ops ResponseCache_init fill_then_get"
    by (simp add: run_fill_then_get)
  have c: "Map_size (cache full_cache) = maxSize ResponseCache_init"
    by (simp add: full_cache_size ResponseCache_init_def)
  have k1: "''1'' \<in> set (Map_keys (cache full_cache))"
    unfolding full_cache_keys by code_simp
  have ne: "''1'' \<noteq> ''0''" by simp
  from cache_size_bounded_fifo [OF a b r, of "''0''" 50 "''new''" "''x''" 100]
    c full_cache_new_key
  have eq: "cache (ResponseCache_set full_cache ''new'' ''x'' 100) =
              tl (cache full_cache) @ [(''new'', \<lparr>entry_response = ''x'', timestamp = 100\<rparr>)]"
    and ex: "\<exists>oldest. Map_first_key (cache full_cache) = Some oldest \<and>
               Map_get (cache (ResponseCache_set full_cache ''new'' ''x'' 100)) oldest = None \<and>
               (\<forall>k' \<in> set (Map_keys (cache full_cache)). k' \<noteq> oldest \<longrightarrow>
                  inserted_before (inserted_at ResponseCache_init fill_then_get) oldest k')"
    by blast+
  from ex full_cache_oldest k1 ne
  have gone: "Map_get (cache (ResponseCache_set full_cache ''new'' ''x'' 100)) ''0'' = None"
    and before: "inserted_before (inserted_at ResponseCache_init fill_then_get) ''0'' ''1''"
    by auto
  show ?thesis
    using a b r c full_cache_new_key full_cache_get_hit eq full_cache_oldest gone
      inserted_at_0 inserted_at_1 before
    by simp
qed

subsection \<open>What a \<open>set\<close> removes\<close>

text \<open>
  Claim C5 says that a \<open>set\<close> whose key is already present never evicts another entry.
  In the full cache the key \<open>1\<close> is present, and storing under it again removes the
  entry of the key \<open>0\<close>.
\<close>

theorem set_existing_key_evicts_counterexample:
  "Map_size (cache full_cache) = maxSize full_cache \<and>
   Map_get (cache full_cache) ''1'' \<noteq> None \<and>
   Map_get (cache full_cache) ''0'' \<noteq> None \<and>
   Map_get (cache (ResponseCache_set full_cache ''1'' ''x'' 100)) ''0'' = None"
proof -
  have "Map_get (cache (ResponseCache_set full_cache ''1'' ''x'' 100)) ''0'' =
        Map_get (evict_oldest (cache full_cache)) ''0''"
    by (simp add: ResponseCache_set_def full_cache_size full_cache_maxSize Map_get_Map_set_other)
  also have "\<dots> = None"
    by (simp add: Map_get_evict_oldest full_cache_oldest)
  finally show ?thesis
    by (simp add: full_cache_size full_cache_maxSize full_cache_get_0 full_cache_get_1)
qed

text \<open>
  Claim C5, amended. \<open>set(key, text)\<close> inserts or overwrites the entry for \<open>key\<close>.
  Below \<open>maxSize\<close> it changes no other entry. At \<open>maxSize\<close> it removes the
  oldest-inserted entry, whether \<open>key\<close> is new or already present, and changes no
  other entry.
\<close>

theorem ResponseCache_set_effect:
  "Map_get (cache (ResponseCache_set c key r now)) key = Some \<lparr>entry_response = r, timestamp = now\<rparr> \<and>
   (Map_size (cache c) < maxSize c \<longrightarrow>
      (\<forall>k. k \<noteq> key \<longrightarrow> Map_get (cache (ResponseCache_set c key r now)) k = Map_get (cache c) k)) \<and>
   (maxSize c \<le> Map_size (cache c) \<longrightarrow>
      (\<forall>k. k \<noteq> key \<longrightarrow>
         Map_get (cache (ResponseCache_set c key r now)) k =
           (if Map_first_key (cache c) = Some k then None else Map_get (cache c) k)))"
  by (simp add: ResponseCache_set_def Map_get_Map_set_same Map_get_Map_set_other Map_get_evict_oldest)

text \<open>The three parts at the full cache and at the empty one.\<close>

theorem ResponseCache_set_effect_witness:
  "maxSize full_cache \<le> Map_size (cache full_cache) \<and> ''0'' \<noteq> ''1'' \<and> ''2'' \<noteq> ''1'' \<and>
   Map_get (cache (ResponseCache_set full_cache ''1'' ''x'' 100)) ''1'' = Some \<lparr>entry_response = ''x'', timestamp = 100\<rparr> \<and>
   Map_get (cache (ResponseCache_set full_cache ''1'' ''x'' 100)) ''0'' = None \<and>
   Map_get (cache (ResponseCache_set full_cache ''1'' ''x'' 100)) ''2'' = Some \<lparr>entry_response = ''r'', timestamp = 2\<rparr> \<and>
   Map_size (cache ResponseCache_init) < maxSize ResponseCache_init \<and>
   Map_get (cache (ResponseCache_set ResponseCache_init ''1'' ''x'' 100)) ''2'' = None"
proof -
  have full: "maxSize full_cache \<le> Map_size (cache full_cache)"
    by (simp add: full_cache_size full_cache_maxSize)
  have k0: "Map_first_key (cache full_cache) = Some ''0''"
    and k2: "Map_first_key (cache full_cache) \<noteq> Some ''2''"
    by (simp_all add: full_cache_oldest)
  note g2 = full_cache_get_2
  have init: "Map_size (cache ResponseCache_init) < maxSize ResponseCache_init"
    "Map_get (cache ResponseCache_init) ''2'' = None"
    by (simp_all add: ResponseCache_init_def Map_size_def Map_get_def)
  show ?thesis
    using ResponseCache_set_effect [of full_cache "''1''" "''x''" 100]
      ResponseCache_set_effect [of ResponseCache_init "''1''" "''x''" 100]
      full k0 k2 g2 init
    by simp
qed

section \<open>Properties of \<open>ApiService.call\<close>\<close>

subsection \<open>The two ways through the cache check\<close>

lemma truthy_None [simp]: "truthy None = None"
  by (simp add: truthy_def)

lemma call_no_hit:
  assumes "cache_hit c t_get options = None"
  shows "ApiService_call net c t_get t_set options =
    (let caching = (or_default (useCache options) True \<and> \<not> or_default (stream options) False);
         key = generateKey (or_default (systemPrompt options) []) (userPrompt options)
                (or_default (model options) ''llama-3.3-70b'');
         c1 = (if caching then snd (ResponseCache_get c key t_get) else c)
     in case truthy (cerebras (keys_of options)) of
          Some k1 \<Rightarrow>
            (case cerebras_reply net options k1 of
               Inr r \<Rightarrow> (Inr \<lparr>response = r, provider = ''cerebras'', cached = False, failover = None\<rparr>,
                         store_response caching c1 key r t_set, [Cerebras])
             | Inl e1 \<Rightarrow>
                 (case truthy (gemini (keys_of options)) of
                    Some k2 \<Rightarrow>
                      (case gemini_reply net options k2 of
                         Inr r \<Rightarrow> (Inr \<lparr>response = r, provider = ''gemini'', cached = False, failover = Some True\<rparr>,
                                   store_response caching c1 key r t_set, [Cerebras, Gemini])
                       | Inl e2 \<Rightarrow> (Inl (Error (''Both APIs failed. Cerebras: '' @ message e1 @ '', Gemini: '' @ message e2)),
                                    c1, [Cerebras, Gemini]))
                  | None \<Rightarrow> (Inl e1, c1, [Cerebras])))
        | None \<Rightarrow>
            (case truthy (gemini (keys_of options)) of
               Some k2 \<Rightarrow>
                 (case gemini_reply net options k2 of
                    Inr r \<Rightarrow> (Inr \<lparr>response = r, provider = ''gemini'', cached = False, failover = None\<rparr>,
                              store_response caching c1
                                (generateKey (or_default (systemPrompt options) []) (userPrompt options) ''gemini'')
                                r t_set, [Gemini])
                  | Inl e2 \<Rightarrow> (Inl e2, c1, [Gemini]))
             | None \<Rightarrow> (Inl (Error ''No API keys configured. Please add an API key in settings.''), c1, [])))"
proof (cases "or_default (useCache options) True \<and> \<not> or_default (stream options) False")
  case True
  with assms have "truthy (fst (ResponseCache_get c
      (generateKey (or_default (systemPrompt options) []) (userPrompt options)
         (or_default (model options) ''llama-3.3-70b'')) t_get)) = None"
    by (simp add: cache_hit_def)
  with True show ?thesis
    by (simp add: ApiService_call_def keys_of_def cerebras_reply_def gemini_reply_def
        Let_def case_prod_beta cong: option.case_cong sum.case_cong)
next
  case False
  then show ?thesis
    by (cases "or_default (useCache options) True"; cases "or_default (stream options) False")
      (simp_all add: ApiService_call_def keys_of_def cerebras_reply_def gemini_reply_def
        Let_def case_prod_beta cong: option.case_cong sum.case_cong)
qed

lemma call_hit:
  assumes "cache_hit c t_get options = Some s"
  shows "ApiService_call net c t_get t_set options =
     (Inr \<lparr>response = s, provider = ''cache'', cached = True, failover = None\<rparr>, c, [])"
proof -
  from assms have caching: "or_default (useCache options) True \<and> \<not> or_default (stream options) False"
    by (simp add: cache_hit_def split: if_splits)
  let ?key = "generateKey (or_default (systemPrompt options) []) (userPrompt options)
                (or_default (model options) ''llama-3.3-70b'')"
  from assms caching have t: "truthy (fst (ResponseCache_get c ?key t_get)) = Some s"
    by (simp add: cache_hit_def)
  then have "snd (ResponseCache_get c ?key t_get) = c"
    by (auto simp: ResponseCache_get_def split: option.splits if_splits)
  with t caching show ?thesis
    by (simp add: ApiService_call_def Let_def case_prod_beta)
qed

lemma get_after_set_within_ttl:
  "t2 - t1 \<le> ttlMs c \<Longrightarrow>
   ResponseCache_get (ResponseCache_set c key r t1) key t2 = (Some r, ResponseCache_set c key r t1)"
  by (simp add: ResponseCache_get_def ResponseCache_set_def Let_def Map_get_Map_set_same)

lemma ttlMs_get [simp]: "ttlMs (snd (ResponseCache_get c key now)) = ttlMs c"
  by (simp add: ResponseCache_get_def split: option.splits)

lemma repeat_call_cached_with_primary_key:
  assumes caching: "or_default (useCache options) True" "\<not> or_default (stream options) False"
    and key: "truthy (cerebras (keys_of options)) = Some k"
    and first: "ApiService_call net c t1 t1' options = (Inr r, c1, calls)" "calls \<noteq> []"
    and nonempty: "response r \<noteq> []"
    and ttl: "t2 - t1' \<le> ttlMs c"
  shows "ApiService_call net' c1 t2 t2' options =
           (Inr \<lparr>response = response r, provider = ''cache'', cached = True, failover = None\<rparr>, c1, [])"
proof -
  let ?key = "generateKey (or_default (systemPrompt options) []) (userPrompt options)
                (or_default (model options) ''llama-3.3-70b'')"
  let ?c0 = "snd (ResponseCache_get c ?key t1)"
  have miss: "cache_hit c t1 options = None"
  proof (cases "cache_hit c t1 options")
    case (Some s)
    from first call_hit [OF Some, of net t1'] show ?thesis by simp
  qed simp
  have c1: "c1 = ResponseCache_set ?c0 ?key (response r) t1'"
    using first(1) caching key
    unfolding call_no_hit [OF miss]
    by (auto simp: Let_def store_response_def split: sum.splits option.splits)
  have "ResponseCache_get c1 ?key t2 = (Some (response r), c1)"
    unfolding c1 by (rule get_after_set_within_ttl) (simp add: ttl)
  then have "cache_hit c1 t2 options = Some (response r)"
    using caching nonempty by (simp add: cache_hit_def truthy_def)
  then show ?thesis by (rule call_hit)
qed

subsection \<open>A repeated request\<close>

text \<open>
  Claim C1 says that a second identical request within the TTL is served from the cache
  whichever keys served the first one. With the Gemini key alone the first call stores
  its answer under the key of the model name \<open>gemini\<close>, and the second call looks under
  the key of the request's model \<open>m1\<close>: it misses and calls Gemini again. With the
  Cerebras key alone the same second request is served from the cache.
\<close>

theorem secondary_only_repeat_not_cached:
  "ApiService_call adapters_up ResponseCache_init 0 5 (request secondary_only) =
     (Inr \<lparr>response = ''4'', provider = ''gemini'', cached = False, failover = None\<rparr>,
      after_first secondary_only, [Gemini]) \<and>
   Map_keys (cache (after_first secondary_only)) = [generateKey ''S'' ''2+2?'' ''gemini''] \<and>
   generateKey ''S'' ''2+2?'' ''gemini'' \<noteq> generateKey ''S'' ''2+2?'' ''m1'' \<and>
   30 - 5 \<le> ttlMs (after_first secondary_only) \<and>
   fst (ApiService_call adapters_up (after_first secondary_only) 30 35 (request secondary_only)) =
     Inr \<lparr>response = ''4'', provider = ''gemini'', cached = False, failover = None\<rparr> \<and>
   snd (snd (ApiService_call adapters_up (after_first secondary_only) 30 35 (request secondary_only))) =
     [Gemini] \<and>
   ApiService_call adapters_up (after_first primary_only) 30 35 (request primary_only) =
     (Inr \<lparr>response = ''4'', provider = ''cache'', cached = True, failover = None\<rparr>,
      after_first primary_only, [])"
  by code_simp

subsection \<open>The \<open>failover\<close> property\<close>

text \<open>
  Claim C2 says that every result carries a boolean \<open>failover\<close> that is \<open>false\<close> on
  every path but the failover. The result of a cache hit has no such property.
\<close>

theorem cache_hit_failover_counterexample:
  "ApiService_call adapters_up (after_first primary_only) 30 35 (request primary_only) =
     (Inr \<lparr>response = ''4'', provider = ''cache'', cached = True, failover = None\<rparr>,
      after_first primary_only, []) \<and>
   failover \<lparr>response = ''4'', provider = ''cache'', cached = True, failover = None\<rparr> \<noteq> Some False"
  by code_simp

text \<open>
  Claim C2, amended. A result has the property \<open>failover\<close>, with the value \<open>true\<close>,
  exactly when both adapters were invoked, that is when Gemini served the request after
  the Cerebras call had failed; every other result has no \<open>failover\<close> property. A cache
  hit returns the cached text with \<open>provider = "cache"\<close>, \<open>cached = true\<close>, no
  \<open>failover\<close> property and no adapter invoked.
\<close>

theorem failover_field:
  assumes "ApiService_call net c t_get t_set options = (Inr r, c', calls)"
  shows "failover r = (if calls = [Cerebras, Gemini] then Some True else None) \<and>
         (calls = [Cerebras, Gemini] \<longrightarrow>
            provider r = ''gemini'' \<and>
            (\<exists>k e. truthy (cerebras (keys_of options)) = Some k \<and> cerebras_reply net options k = Inl e)) \<and>
         (\<forall>s. cache_hit c t_get options = Some s \<longrightarrow>
            response r = s \<and> provider r = ''cache'' \<and> cached r \<and> failover r = None \<and> calls = [])"
proof (cases "cache_hit c t_get options")
  case None
  show ?thesis
    using assms unfolding call_no_hit [OF None]
    by (auto simp: Let_def None split: option.splits sum.splits)
next
  case (Some s)
  show ?thesis
    using assms Some unfolding call_hit [OF Some] by auto
qed

text \<open>The theorem at a failover and at a cache hit.\<close>

theorem failover_field_witness:
  "ApiService_call adapters_failover ResponseCache_init 0 5 (request both_keys) =
     (Inr \<lparr>response = ''4'', provider = ''gemini'', cached = False, failover = Some True\<rparr>,
      after_first primary_only, [Cerebras, Gemini]) \<and>
   cache_hit (after_first primary_only) 30 (request primary_only) = Some ''4'' \<and>
   ApiService_call adapters_up (after_first primary_only) 30 35 (request primary_only) =
     (Inr \<lparr>response = ''4'', provider = ''cache'', cached = True, failover = None\<rparr>,
      after_first primary_only, [])"
proof -
  have a: "ApiService_call adapters_failover ResponseCache_init 0 5 (request both_keys) =
     (Inr \<lparr>response = ''4'', provider = ''gemini'', cached = False, failover = Some True\<rparr>,
      after_first primary_only, [Cerebras, Gemini])"
    by code_simp
  have b: "cache_hit (after_first primary_only) 30 (request primary_only) = Some ''4''"
    by code_simp
  have c: "ApiService_call adapters_up (after_first primary_only) 30 35 (request primary_only) =
     (Inr \<lparr>response = ''4'', provider = ''cache'', cached = True, failover = None\<rparr>,
      after_first primary_only, [])"
    by code_simp
  show ?thesis
    using failover_field [OF a] failover_field [OF c] a b c by simp
qed

subsection \<open>Both providers fail\<close>

text \<open>
  Claim C7. When both keys are present and both the Cerebras call and the Gemini call
  are made and fail, \<open>call\<close> throws one error whose message holds both messages.
\<close>

theorem both_providers_fail_combined_error:
  assumes "ApiService_call net c t_get t_set options = (res, c', calls)"
    and "truthy (cerebras (keys_of options)) = Some k1"
    and "truthy (gemini (keys_of options)) = Some k2"
    and "Cerebras \<in> set calls" and "cerebras_reply net options k1 = Inl (Error m1)"
    and "Gemini \<in> set calls" and "gemini_reply net options k2 = Inl (Error m2)"
  shows "res = Inl (Error (''Both APIs failed. Cerebras: '' @ m1 @ '', Gemini: '' @ m2)) \<and>
         (\<exists>e pre mid post. res = Inl e \<and> message e = pre @ m1 @ mid @ m2 @ post) \<and>
         calls = [Cerebras, Gemini]"
proof -
  have miss: "cache_hit c t_get options = None"
  proof (cases "cache_hit c t_get options")
    case (Some s)
    from assms(1,4) call_hit [OF Some, of net t_set] show ?thesis by simp
  qed simp
  have res: "res = Inl (Error (''Both APIs failed. Cerebras: '' @ m1 @ '', Gemini: '' @ m2))"
    and calls: "calls = [Cerebras, Gemini]"
    using assms unfolding call_no_hit [OF miss] by (simp_all add: Let_def)
  have "message (Error (''Both APIs failed. Cerebras: '' @ m1 @ '', Gemini: '' @ m2)) =
        ''Both APIs failed. Cerebras: '' @ m1 @ '', Gemini: '' @ m2 @ []"
    by simp
  with res have "\<exists>e pre mid post. res = Inl e \<and> message e = pre @ m1 @ mid @ m2 @ post"
    by blast
  with res calls show ?thesis by simp
qed

text \<open>The theorem at two failing adapters.\<close>

theorem both_providers_fail_combined_error_witness:
  "truthy (cerebras (keys_of (request both_keys))) = Some ''k1'' \<and>
   truthy (gemini (keys_of (request both_keys))) = Some ''k2'' \<and>
   cerebras_reply adapters_down (request both_keys) ''k1'' = Inl (Error ''Cerebras API error: Bad Gateway'') \<and>
   gemini_reply adapters_down (request both_keys) ''k2'' = Inl (Error ''Gemini API error: Forbidden'') \<and>
   ApiService_call adapters_down ResponseCache_init 0 5 (request both_keys) =
     (Inl (Error ''Both APIs failed. Cerebras: Cerebras API error: Bad Gateway, Gemini: Gemini API error: Forbidden''),
      ResponseCache_init, [Cerebras, Gemini])"
proof -
  have a: "ApiService_call adapters_down ResponseCache_init 0 5 (request both_keys) =
     (Inl (Error ''Both APIs failed. Cerebras: Cerebras API error: Bad Gateway, Gemini: Gemini API error: Forbidden''),
      ResponseCache_init, [Cerebras, Gemini])"
    by code_simp
  have k1: "truthy (cerebras (keys_of (request both_keys))) = Some ''k1''"
    and k2: "truthy (gemini (keys_of (request both_keys))) = Some ''k2''"
    and r1: "cerebras_reply adapters_down (request both_keys) ''k1'' = Inl (Error ''Cerebras API error: Bad Gateway'')"
    and r2: "gemini_reply adapters_down (request both_keys) ''k2'' = Inl (Error ''Gemini API error: Forbidden'')"
    by code_simp+
  show ?thesis
    using both_providers_fail_combined_error [OF a k1 k2 _ r1 _ r2] a k1 k2 r1 r2 by simp
qed

subsection \<open>No keys\<close>

text \<open>
  Claim C9 says that without keys \<open>call\<close> rejects with the configuration error. The
  cache check comes first: a request whose answer is cached is served without keys.
\<close>

theorem no_keys_cache_hit_counterexample:
  "truthy (cerebras (keys_of (request no_keys))) = None \<and>
   truthy (gemini (keys_of (request no_keys))) = None \<and>
   ApiService_call adapters_down (after_first primary_only) 30 35 (request no_keys) =
     (Inr \<lparr>response = ''4'', provider = ''cache'', cached = True, failover = None\<rparr>,
      after_first primary_only, [])"
  by code_simp

text \<open>
  Claim C9, amended. When neither key is present, \<open>call\<close> issues no network request;
  it throws the configuration error unless the cache check finds a text for the
  request, which it then returns.
\<close>

theorem no_keys_configuration_error:
  assumes "truthy (cerebras (keys_of options)) = None" and "truthy (gemini (keys_of options)) = None"
  shows "snd (snd (ApiService_call net c t_get t_set options)) = [] \<and>
         (cache_hit c t_get options = None \<longrightarrow>
            fst (ApiService_call net c t_get t_set options) =
              Inl (Error ''No API keys configured. Please add an API key in settings.'')) \<and>
         (\<forall>s. cache_hit c t_get options = Some s \<longrightarrow>
            fst (ApiService_call net c t_get t_set options) =
              Inr \<lparr>response = s, provider = ''cache'', cached = True, failover = None\<rparr>)"
proof (cases "cache_hit c t_get options")
  case None
  show ?thesis unfolding call_no_hit [OF None] using assms by (simp add: Let_def None)
next
  case (Some s)
  show ?thesis unfolding call_hit [OF Some] by (simp add: Some)
qed

text \<open>The theorem at a cold cache and at a warm one.\<close>

theorem no_keys_configuration_error_witness:
  "truthy (cerebras (keys_of (request no_keys))) = None \<and>
   truthy (gemini (keys_of (request no_keys))) = None \<and>
   cache_hit ResponseCache_init 0 (request no_keys) = None \<and>
   fst (ApiService_call adapters_up ResponseCache_init 0 5 (request no_keys)) =
     Inl (Error ''No API keys configured. Please add an API key in settings.'') \<and>
   snd (snd (ApiService_call adapters_up ResponseCache_init 0 5 (request no_keys))) = [] \<and>
   cache_hit (after_first primary_only) 30 (request no_keys) = Some ''4'' \<and>
   fst (ApiService_call adapters_up (after_first primary_only) 30 35 (request no_keys)) =
     Inr \<lparr>response = ''4'', provider = ''cache'', cached = True, failover = None\<rparr>"
proof -
  have k1: "truthy (cerebras (keys_of (request no_keys))) = None"
    and k2: "truthy (gemini (keys_of (request no_keys))) = None"
    and miss: "cache_hit ResponseCache_init 0 (request no_keys) = None"
    and hit: "cache_hit (after_first primary_only) 30 (request no_keys) = Some ''4''"
    by code_simp+
  show ?thesis
    using no_keys_configuration_error [OF k1 k2, of adapters_up ResponseCache_init 0 5]
      no_keys_configuration_error [OF k1 k2, of adapters_up "after_first primary_only" 30 35]
      k1 k2 miss hit
    by simp
qed

section \<open>Properties of \<open>ApiService.stream\<close>\<close>

subsection \<open>What the read loop emits\<close>

lemma process_line_eq:
  "process_line parse st line =
     (case frame_delta parse line of
        None \<Rightarrow> st
      | Some d \<Rightarrow> (fst st @ ToString d, snd st @ [OnChunk d]))"
  by (simp add: process_line_def frame_delta_def Let_def split: option.splits)

lemma foldl_process_line:
  "foldl (process_line parse) st ls =
     (fst st @ concat (map ToString (deltas parse ls)), snd st @ map OnChunk (deltas parse ls))"
proof (induction ls arbitrary: st)
  case Nil
  then show ?case by simp
next
  case (Cons l ls)
  have "foldl (process_line parse) st (l # ls) =
        foldl (process_line parse) (process_line parse st l) ls"
    by simp
  also have "\<dots> = (fst (process_line parse st l) @ concat (map ToString (deltas parse ls)),
                     snd (process_line parse st l) @ map OnChunk (deltas parse ls))"
    by (rule Cons.IH)
  finally have step: "foldl (process_line parse) st (l # ls) =
      (fst (process_line parse st l) @ concat (map ToString (deltas parse ls)),
       snd (process_line parse st l) @ map OnChunk (deltas parse ls))" .
  show ?case
  proof (cases "frame_delta parse l")
    case None
    then have "process_line parse st l = st" by (simp add: process_line_eq)
    with step None show ?thesis by simp
  next
    case (Some d)
    then have "process_line parse st l = (fst st @ ToString d, snd st @ [OnChunk d])"
      by (simp add: process_line_eq)
    with step Some show ?thesis by simp
  qed
qed

lemma process_chunk_eq:
  "process_chunk parse st chunk =
     (fst st @ concat (map ToString (emitted parse (split_newline chunk))),
      snd st @ map OnChunk (emitted parse (split_newline chunk)))"
  by (simp add: process_chunk_def emitted_def foldl_process_line)

lemma read_loop_values:
  "read_loop parse (map ReadValue chunks) st =
     snd st @ map OnChunk (concat (map (\<lambda>ch. emitted parse (split_newline ch)) chunks))
       @ [OnComplete (fst st @ concat (map ToString
            (concat (map (\<lambda>ch. emitted parse (split_newline ch)) chunks))))]"
  by (induction chunks arbitrary: st) (simp_all add: process_chunk_eq)

lemma split_newline_nonempty: "split_newline t \<noteq> []"
  by (induction t) (auto split: list.splits)

lemma split_newline_at_newline:
  "split_newline (a @ CHR 0x0A # b) = split_newline a @ split_newline b"
proof (induction a)
  case Nil
  then show ?case by simp
next
  case (Cons ch a)
  obtain l ls where "split_newline a = l # ls"
    using split_newline_nonempty [of a] by (cases "split_newline a") auto
  with Cons show ?case by simp
qed

lemma split_newline_no_newline: "CHR 0x0A \<notin> set t \<Longrightarrow> split_newline t = [t]"
  by (induction t) auto

lemma not_frame_empty: "\<not> is_frame []"
  by (simp add: is_frame_def trim_def startsWith_def)

lemma deltas_append: "deltas parse (xs @ ys) = deltas parse xs @ deltas parse ys"
  by (induction xs) (simp_all split: option.splits)

lemma emitted_append: "emitted parse (xs @ ys) = emitted parse xs @ emitted parse ys"
  by (simp add: emitted_def deltas_append)

lemma emitted_empty_line: "emitted parse [[]] = []"
  by (simp add: emitted_def not_frame_empty)



lemma split_join_lines:
  "\<forall>l \<in> set ls. CHR 0x0A \<notin> set l \<Longrightarrow> split_newline (join_lines ls) = ls @ [[]]"
proof (induction ls)
  case Nil
  then show ?case by (simp add: join_lines_def)
next
  case (Cons l ls)
  then have "split_newline (join_lines ls) = ls @ [[]]" by simp
  moreover have "join_lines (l # ls) = l @ CHR 0x0A # join_lines ls"
    by (simp add: join_lines_def)
  ultimately show ?case
    using Cons.prems by (simp add: split_newline_at_newline split_newline_no_newline)
qed

lemma frame_delta_sentinel: "frame_data l = ''[DONE]'' \<Longrightarrow> frame_delta parse l = None"
  by (simp add: frame_delta_def)

lemma emitted_drop_sentinels:
  "emitted parse (filter (\<lambda>l. frame_data l \<noteq> ''[DONE]'') ls) = emitted parse ls"
  unfolding emitted_def
  by (induction ls) (auto simp: frame_delta_sentinel split: option.splits)


lemma emitted_join_lines:
  "\<forall>l \<in> set ls. CHR 0x0A \<notin> set l \<Longrightarrow> emitted parse (split_newline (join_lines ls)) = emitted parse ls"
  by (simp add: split_join_lines emitted_append emitted_empty_line)

lemma emitted_whole_lines:
  "\<forall>ls \<in> set lss. \<forall>l \<in> set ls. CHR 0x0A \<notin> set l \<Longrightarrow>
   concat (map (\<lambda>ch. emitted parse (split_newline ch)) (map join_lines lss)) =
     emitted parse (concat lss)"
proof (induction lss)
  case Nil
  then show ?case by (simp add: emitted_def)
next
  case (Cons ls lss)
  then have "emitted parse (split_newline (join_lines ls)) = emitted parse ls"
    by (simp add: emitted_join_lines)
  with Cons show ?case by (simp add: emitted_append)
qed

lemma chunk_args_append: "chunk_args (xs @ ys) = chunk_args xs @ chunk_args ys"
  by (induction xs rule: chunk_args.induct) simp_all

lemma complete_args_append: "complete_args (xs @ ys) = complete_args xs @ complete_args ys"
  by (induction xs rule: complete_args.induct) simp_all

lemma error_args_append: "error_args (xs @ ys) = error_args xs @ error_args ys"
  by (induction xs rule: error_args.induct) simp_all

lemma args_of_chunks [simp]:
  "chunk_args (map OnChunk ds) = ds" "complete_args (map OnChunk ds) = []"
  "error_args (map OnChunk ds) = []"
  by (induction ds) simp_all

lemma read_loop_shape:
  "\<exists>ds. read_loop parse body st =
           snd st @ map OnChunk ds @ [OnComplete (fst st @ concat (map ToString ds))] \<or>
        (\<exists>e. read_loop parse body st = snd st @ map OnChunk ds @ [OnError e])"
proof (induction body arbitrary: st)
  case Nil
  have "read_loop parse [] st = snd st @ map OnChunk [] @ [OnComplete (fst st @ concat (map ToString []))]"
    by simp
  then show ?case by blast
next
  case (Cons x body)
  show ?case
  proof (cases x)
    case (ReadValue chunk)
    let ?es = "emitted parse (split_newline chunk)"
    from Cons [of "process_chunk parse st chunk"] obtain ds where
      "read_loop parse body (process_chunk parse st chunk) =
         snd (process_chunk parse st chunk) @ map OnChunk ds
           @ [OnComplete (fst (process_chunk parse st chunk) @ concat (map ToString ds))] \<or>
       (\<exists>e. read_loop parse body (process_chunk parse st chunk) =
         snd (process_chunk parse st chunk) @ map OnChunk ds @ [OnError e])"
      by blast
    then have "read_loop parse (x # body) st =
         snd st @ map OnChunk (?es @ ds) @ [OnComplete (fst st @ concat (map ToString (?es @ ds)))] \<or>
       (\<exists>e. read_loop parse (x # body) st = snd st @ map OnChunk (?es @ ds) @ [OnError e])"
      by (simp add: ReadValue process_chunk_eq)
    then show ?thesis by blast
  next
    case (ReadThrows e)
    have "read_loop parse (x # body) st = snd st @ map OnChunk [] @ [OnError e]"
      by (simp add: ReadThrows)
    then show ?thesis by blast
  qed
qed

lemma stream_primary_values:
  assumes "truthy (cerebras (keys_of options)) = Some k"
  shows "ApiService_stream parse net (FetchResponse True statusText (map ReadValue chunks)) c t_get t_set options =
     (map OnChunk (concat (map (\<lambda>ch. emitted parse (split_newline ch)) chunks))
        @ [OnComplete (concat (map ToString
             (concat (map (\<lambda>ch. emitted parse (split_newline ch)) chunks))))], c)"
  using assms by (simp add: ApiService_stream_def keys_of_def read_loop_values)

subsection \<open>Frames and read boundaries\<close>




subsection \<open>The end-of-stream sentinel\<close>

text \<open>
  Claim C4 says that no chunk is emitted after the frame \<open>[DONE]\<close>. The loop body
  skips that frame with \<open>continue\<close> and goes on: a frame after it, in the same read or
  in a later one, is emitted.
\<close>

theorem frames_after_sentinel_counterexample:
  "fst (ApiService_stream JSON_parse adapters_up
          (FetchResponse True ''OK'' [ReadValue (frame_Hi @ frame_done @ frame_there)])
          ResponseCache_init 0 5 (request primary_only)) =
     [OnChunk (JStr ''Hi''), OnChunk (JStr '' there''), OnComplete ''Hi there''] \<and>
   fst (ApiService_stream JSON_parse adapters_up
          (FetchResponse True ''OK'' [ReadValue (frame_Hi @ frame_done), ReadValue frame_there])
          ResponseCache_init 0 5 (request primary_only)) =
     [OnChunk (JStr ''Hi''), OnChunk (JStr '' there''), OnComplete ''Hi there'']"
  by code_simp

text \<open>
  Claim C4, amended. The sentinel frame emits nothing and does not end the loop, which
  ends when the reader reports \<open>done\<close>: for reads made of whole lines the session emits
  the deltas of all frames other than sentinels, those after a sentinel included.
\<close>

theorem sentinel_frame_is_skipped:
  assumes "truthy (cerebras (keys_of options)) = Some k"
    and "\<forall>ls \<in> set lss. \<forall>l \<in> set ls. CHR 0x0A \<notin> set l"
  shows "fst (ApiService_stream parse net
                (FetchResponse True statusText (map ReadValue (map join_lines lss)))
                c t_get t_set options) =
         map OnChunk (emitted parse (filter (\<lambda>l. frame_data l \<noteq> ''[DONE]'') (concat lss)))
           @ [OnComplete (concat (map ToString
                (emitted parse (filter (\<lambda>l. frame_data l \<noteq> ''[DONE]'') (concat lss)))))]"
  by (simp only: stream_primary_values [OF assms(1)] emitted_whole_lines [OF assms(2)]
      emitted_drop_sentinels fst_conv)

text \<open>The theorem at a sentinel between two frames.\<close>

theorem sentinel_frame_is_skipped_witness:
  "truthy (cerebras (keys_of (request primary_only))) = Some ''k1'' \<and>
   CHR 0x0A \<notin> set (butlast frame_Hi) \<and>
   CHR 0x0A \<notin> set (butlast frame_done) \<and>
   CHR 0x0A \<notin> set (butlast frame_there) \<and>
   frame_data (butlast frame_done) = ''[DONE]'' \<and>
   fst (ApiService_stream JSON_parse adapters_up
          (FetchResponse True ''OK''
             (map ReadValue (map join_lines [[butlast frame_Hi, butlast frame_done], [butlast frame_there]])))
          ResponseCache_init 0 5 (request primary_only)) =
     [OnChunk (JStr ''Hi''), OnChunk (JStr '' there''), OnComplete ''Hi there'']"
proof -
  have k: "truthy (cerebras (keys_of (request primary_only))) = Some ''k1''"
    by code_simp
  have nl: "\<forall>ls \<in> set [[butlast frame_Hi, butlast frame_done], [butlast frame_there]].
      \<forall>l \<in> set ls. CHR 0x0A \<notin> set l"
    by code_simp
  have d: "frame_data (butlast frame_done) = ''[DONE]''"
    by code_simp
  have em: "emitted JSON_parse (filter (\<lambda>l. frame_data l \<noteq> ''[DONE]'')
              (concat [[butlast frame_Hi, butlast frame_done], [butlast frame_there]])) =
            [JStr ''Hi'', JStr '' there'']"
    by code_simp
  have n1: "CHR 0x0A \<notin> set (butlast frame_Hi)"
    and n2: "CHR 0x0A \<notin> set (butlast frame_done)"
    and n3: "CHR 0x0A \<notin> set (butlast frame_there)"
    by code_simp+
  show ?thesis
    using sentinel_frame_is_skipped [OF k nl, of JSON_parse adapters_up "''OK''" ResponseCache_init 0 5]
      k n1 n2 n3 d em
    by simp
qed

subsection \<open>Completion\<close>

text \<open>
  Claim C6. For every streaming call that completes normally, that is without a call
  of \<open>onError\<close>, \<open>onComplete\<close> is called exactly once, last, and its argument is the
  concatenation, in call order, of the values passed to \<open>onChunk\<close> (\<open>ToString\<close> is the
  identity on strings). Without a Cerebras key the session is one chunk holding the
  whole response, followed by the completion with the same text.
\<close>

theorem stream_completion_is_concatenation:
  assumes "ApiService_stream parse net fetched c t_get t_set options = (evs, c')"
    and "error_args evs = []"
  shows "complete_args evs = [concat (map ToString (chunk_args evs))] \<and>
         last evs = OnComplete (concat (map ToString (chunk_args evs))) \<and>
         (truthy (cerebras (keys_of options)) = None \<longrightarrow>
            (\<exists>r. evs = [OnChunk (JStr r), OnComplete r]))"
proof (cases "truthy (cerebras (keys_of options))")
  case None
  obtain res c1 calls where call:
    "ApiService_call net c t_get t_set (options\<lparr>stream := Some False\<rparr>) = (res, c1, calls)"
    by (cases "ApiService_call net c t_get t_set (options\<lparr>stream := Some False\<rparr>)") auto
  show ?thesis
  proof (cases res)
    case (Inl e)
    with assms None call show ?thesis
      by (auto simp: ApiService_stream_def keys_of_def)
  next
    case (Inr r)
    with assms(1) None call have "evs = [OnChunk (JStr (response r)), OnComplete (response r)]"
      by (auto simp: ApiService_stream_def keys_of_def)
    then show ?thesis by simp
  qed
next
  case (Some k)
  show ?thesis
  proof (cases fetched)
    case (FetchThrows e)
    with assms Some show ?thesis by (auto simp: ApiService_stream_def keys_of_def)
  next
    case (FetchResponse ok statusText body)
    show ?thesis
    proof (cases ok)
      case False
      with assms Some FetchResponse show ?thesis by (auto simp: ApiService_stream_def keys_of_def)
    next
      case True
      with assms(1) Some FetchResponse have evs: "evs = read_loop parse body ([], [])"
        by (auto simp: ApiService_stream_def keys_of_def)
      from read_loop_shape [of parse body "([], [])"] obtain ds where
        "evs = map OnChunk ds @ [OnComplete (concat (map ToString ds))] \<or>
         (\<exists>e. evs = map OnChunk ds @ [OnError e])"
        unfolding evs by auto
      with assms(2) have "evs = map OnChunk ds @ [OnComplete (concat (map ToString ds))]"
        by (auto simp: error_args_append)
      then show ?thesis
        using Some by (simp add: chunk_args_append complete_args_append)
    qed
  qed
qed

text \<open>The theorem at a streamed session and at the session of the fallback.\<close>

theorem stream_completion_is_concatenation_witness:
  "ApiService_stream JSON_parse adapters_up
     (FetchResponse True ''OK'' [ReadValue (frame_corrupt @ frame_Hi), ReadValue (frame_there @ frame_done)])
     ResponseCache_init 0 5 (request primary_only) =
     ([OnChunk (JStr ''Hi''), OnChunk (JStr '' there''), OnComplete ''Hi there''], ResponseCache_init) \<and>
   error_args [OnChunk (JStr ''Hi''), OnChunk (JStr '' there''), OnComplete ''Hi there''] = [] \<and>
   complete_args [OnChunk (JStr ''Hi''), OnChunk (JStr '' there''), OnComplete ''Hi there''] =
     [concat (map ToString (chunk_args [OnChunk (JStr ''Hi''), OnChunk (JStr '' there''), OnComplete ''Hi there'']))] \<and>
   truthy (cerebras (keys_of (request secondary_only))) = None \<and>
   ApiService_stream JSON_parse adapters_up (FetchThrows (Error ''unused''))
     ResponseCache_init 0 5 (request secondary_only) =
     ([OnChunk (JStr ''4''), OnComplete ''4''], after_first secondary_only) \<and>
   error_args [OnChunk (JStr ''4''), OnComplete ''4''] = [] \<and>
   complete_args [OnChunk (JStr ''4''), OnComplete ''4''] =
     [concat (map ToString (chunk_args [OnChunk (JStr ''4''), OnComplete ''4'']))]"
proof -
  have a: "ApiService_stream JSON_parse adapters_up
     (FetchResponse True ''OK'' [ReadValue (frame_corrupt @ frame_Hi), ReadValue (frame_there @ frame_done)])
     ResponseCache_init 0 5 (request primary_only) =
     ([OnChunk (JStr ''Hi''), OnChunk (JStr '' there''), OnComplete ''Hi there''], ResponseCache_init)"
    by code_simp
  have b: "ApiService_stream JSON_parse adapters_up (FetchThrows (Error ''unused''))
     ResponseCache_init 0 5 (request secondary_only) =
     ([OnChunk (JStr ''4''), OnComplete ''4''], after_first secondary_only)"
    by code_simp
  have k: "truthy (cerebras (keys_of (request secondary_only))) = None"
    by code_simp
  have e1: "error_args [OnChunk (JStr ''Hi''), OnChunk (JStr '' there''), OnComplete ''Hi there''] = []"
    and e2: "error_args [OnChunk (JStr ''4''), OnComplete ''4''] = []"
    by simp_all
  show ?thesis
    using stream_completion_is_concatenation [OF a e1] stream_completion_is_concatenation [OF b e2]
      a b k e1 e2
    by simp
qed

end
